theory Spec2Isabelle
  imports Complex_Main "HOL-Library.Word"
begin

section \<open>A single-instrument limit order book\<close>

text \<open>
  The development embeds \<^verbatim>\<open>orderbook.hpp\<close> and \<^verbatim>\<open>orderbook.cpp\<close>.

  \<^item> \<^verbatim>\<open>uint64_t\<close> identifiers are \<open>64 word\<close>: \<^verbatim>\<open>next_id++\<close> wraps around.
  \<^item> \<^verbatim>\<open>double\<close> prices are \<open>real\<close>. The code only compares and copies prices, it never
    computes with them, so every finite \<^verbatim>\<open>double\<close> behaves as the real number it denotes.
    NaN and the infinities are not real numbers. The path of \<open>add_limit\<close> is embedded a
    second time over a type \<open>double\<close> that has them, to state what the engine does with a
    price that is NaN.
  \<^item> \<^verbatim>\<open>int\<close> quantities are \<open>int\<close>. The code computes \<^verbatim>\<open>std::min\<close> of two quantities
    and subtracts the minimum from both.
  \<^item> The \<^verbatim>\<open>ts\<close> members of \<^verbatim>\<open>Order\<close> and \<^verbatim>\<open>Trade\<close> read the clock; nothing in
    the engine reads them back, and they are left out.
  \<^item> A \<^verbatim>\<open>std::map<double, std::deque<Order>>\<close> is a list of (price, queue) pairs in the
    iteration order of the map: ascending prices for \<^verbatim>\<open>asks\<close>, descending prices for
    \<^verbatim>\<open>bids\<close> (\<^verbatim>\<open>std::greater<>\<close>). A \<^verbatim>\<open>std::deque\<close> is a list, front first.
  \<^item> The \<^verbatim>\<open>std::unordered_map\<close> \<^verbatim>\<open>order_index\<close> is a map.

  Field names of \<^verbatim>\<open>Order\<close> carry the suffix \<open>_o\<close> and those of \<^verbatim>\<open>Trade\<close> the suffix
  \<open>_t\<close> where the two structs share a name (or the name is a constant of HOL).
\<close>

subsection \<open>Data model\<close>

type_synonym order_id = "64 word"

record order =
  id_o :: order_id
  price_o :: real
  qty_o :: int

record trade =
  buyer_id :: order_id
  seller_id :: order_id
  price_t :: real
  qty_t :: int

type_synonym level = "order list"
type_synonym ladder = "(real \<times> level) list"
type_synonym index = "order_id \<rightharpoonup> real \<times> bool"

record order_book =
  bids :: ladder
  asks :: ladder
  order_index :: index
  trades :: "trade list"
  next_id :: order_id

text \<open>A default-constructed \<^verbatim>\<open>OrderBook\<close>: empty containers, \<^verbatim>\<open>next_id = 1\<close>.\<close>

definition empty_book :: order_book where
  "empty_book = \<lparr>bids = [], asks = [], order_index = Map.empty, trades = [], next_id = 1\<rparr>"

subsection \<open>Matching\<close>

text \<open>
  The trade that \<^verbatim>\<open>trades.emplace_back\<close> records. The two branches of
  \<^verbatim>\<open>OrderBook::match\<close> differ in the crossing test and in this call only:
  \<^verbatim>\<open>(inc.id, resting.id, it->first, trade_qty)\<close> for an incoming bid,
  \<^verbatim>\<open>(resting.id, inc.id, it->first, trade_qty)\<close> for an incoming ask.
\<close>

definition emplace_trade :: "bool \<Rightarrow> order \<Rightarrow> order \<Rightarrow> real \<Rightarrow> int \<Rightarrow> trade" where
  "emplace_trade is_bid inc resting p trade_qty =
     (if is_bid
      then \<lparr>buyer_id = id_o inc, seller_id = id_o resting, price_t = p, qty_t = trade_qty\<rparr>
      else \<lparr>buyer_id = id_o resting, seller_id = id_o inc, price_t = p, qty_t = trade_qty\<rparr>)"

text \<open>
  The inner \<^verbatim>\<open>while (inc.qty > 0 && !level.empty())\<close> loop of \<^verbatim>\<open>OrderBook::match\<close>,
  on the queue of one price level \<open>p\<close> (\<^verbatim>\<open>it->first\<close>).
\<close>

function match_level ::
  "bool \<Rightarrow> order \<Rightarrow> real \<Rightarrow> level \<Rightarrow> index \<Rightarrow> trade list \<Rightarrow> order \<times> level \<times> index \<times> trade list"
where
  "match_level is_bid inc p [] idx ts = (inc, [], idx, ts)"
| "match_level is_bid inc p (resting # rest) idx ts =
     (if qty_o inc > 0 then
        let trade_qty = min (qty_o inc) (qty_o resting);
            ts' = ts @ [emplace_trade is_bid inc resting p trade_qty];
            inc' = inc\<lparr>qty_o := qty_o inc - trade_qty\<rparr>;
            resting' = resting\<lparr>qty_o := qty_o resting - trade_qty\<rparr>
        in if qty_o resting' = 0
           then match_level is_bid inc' p rest (idx(id_o resting := None)) ts'
           else match_level is_bid inc' p (resting' # rest) idx ts'
      else (inc, resting # rest, idx, ts))"
  by pat_completeness auto
termination
  by (relation "measure (\<lambda>(is_bid, inc, p, lvl, idx, ts).
        2 * length lvl + (if qty_o inc > 0 then 1 else 0))")
     (auto simp: min_def split: if_splits)

text \<open>The crossing condition of the outer loop: \<^verbatim>\<open>it->first <= inc.price\<close> for an incoming
  bid, \<^verbatim>\<open>it->first >= inc.price\<close> for an incoming ask.\<close>

definition crosses :: "bool \<Rightarrow> real \<Rightarrow> real \<Rightarrow> bool" where
  "crosses is_bid level_price inc_price =
     (if is_bid then level_price \<le> inc_price else level_price \<ge> inc_price)"

text \<open>
  The outer loop, walking the opposing ladder from \<^verbatim>\<open>book.begin()\<close>. An emptied level is
  erased (\<^verbatim>\<open>it = book.erase(it)\<close>); a level that still holds orders is kept and the
  iterator moves on (\<^verbatim>\<open>++it\<close>).
\<close>

fun match_book ::
  "bool \<Rightarrow> order \<Rightarrow> ladder \<Rightarrow> index \<Rightarrow> trade list \<Rightarrow> order \<times> ladder \<times> index \<times> trade list"
where
  "match_book is_bid inc [] idx ts = (inc, [], idx, ts)"
| "match_book is_bid inc ((p, lvl) # book) idx ts =
     (if qty_o inc > 0 \<and> crosses is_bid p (price_o inc) then
        (case match_level is_bid inc p lvl idx ts of
           (inc', lvl', idx', ts') \<Rightarrow>
             if lvl' = [] then match_book is_bid inc' book idx' ts'
             else (case match_book is_bid inc' book idx' ts' of
                     (inc'', book', idx'', ts'') \<Rightarrow> (inc'', (p, lvl') # book', idx'', ts'')))
      else (inc, (p, lvl) # book, idx, ts))"

text \<open>\<^verbatim>\<open>OrderBook::match\<close>: an incoming bid matches against \<^verbatim>\<open>asks\<close>, an incoming ask
  against \<^verbatim>\<open>bids\<close>. The incoming order is passed by reference and returned updated.\<close>

definition match :: "order \<Rightarrow> bool \<Rightarrow> order_book \<Rightarrow> order \<times> order_book" where
  "match inc is_bid s =
     (if is_bid then
        (case match_book True inc (asks s) (order_index s) (trades s) of
           (inc', book', idx', ts') \<Rightarrow> (inc', s\<lparr>asks := book', order_index := idx', trades := ts'\<rparr>))
      else
        (case match_book False inc (bids s) (order_index s) (trades s) of
           (inc', book', idx', ts') \<Rightarrow> (inc', s\<lparr>bids := book', order_index := idx', trades := ts'\<rparr>)))"

subsection \<open>Submission\<close>

text \<open>
  \<^verbatim>\<open>book[price].push_back(order)\<close> on a \<^verbatim>\<open>std::map\<close>: the queue of an existing key gets the
  order at its tail, a missing key is created at its place in the iteration order.
  \<open>lt\<close> is the comparator of the map (\<^verbatim>\<open>std::less\<close> for asks, \<^verbatim>\<open>std::greater\<close> for
  bids).
\<close>

fun push_back_at :: "(real \<Rightarrow> real \<Rightarrow> bool) \<Rightarrow> real \<Rightarrow> order \<Rightarrow> ladder \<Rightarrow> ladder" where
  "push_back_at lt p x [] = [(p, [x])]"
| "push_back_at lt p x ((k, lvl) # book) =
     (if lt k p then (k, lvl) # push_back_at lt p x book
      else if lt p k then (p, [x]) # (k, lvl) # book
      else (k, lvl @ [x]) # book)"

definition add_limit :: "real \<Rightarrow> int \<Rightarrow> bool \<Rightarrow> order_book \<Rightarrow> order_id \<times> order_book" where
  "add_limit price qty is_bid s =
     (if qty \<le> 0 then (0, s)
      else
        let inc = \<lparr>id_o = next_id s, price_o = price, qty_o = qty\<rparr>;
            order_id = id_o inc
        in (case match inc is_bid (s\<lparr>next_id := next_id s + 1\<rparr>) of
              (inc', s') \<Rightarrow>
                if qty_o inc' > 0 then
                  (order_id,
                   (if is_bid then s'\<lparr>bids := push_back_at (>) (price_o inc') inc' (bids s')\<rparr>
                    else s'\<lparr>asks := push_back_at (<) (price_o inc') inc' (asks s')\<rparr>)
                   \<lparr>order_index := (order_index s')(order_id \<mapsto> (price, is_bid))\<rparr>)
                else (order_id, s')))"

text \<open>\<^verbatim>\<open>OrderBook::add_market\<close>: the incoming order carries the price \<^verbatim>\<open>1e9\<close> (a bid) or
  \<^verbatim>\<open>0.0\<close> (an ask); whatever is left after matching is discarded with the local order.\<close>

definition add_market :: "int \<Rightarrow> bool \<Rightarrow> order_book \<Rightarrow> order_id \<times> order_book" where
  "add_market qty is_bid s =
     (if qty \<le> 0 then (0, s)
      else
        let inc = \<lparr>id_o = next_id s, price_o = (if is_bid then 1000000000 else 0), qty_o = qty\<rparr>
        in (case match inc is_bid (s\<lparr>next_id := next_id s + 1\<rparr>) of
              (inc', s') \<Rightarrow> (id_o inc', s')))"

subsection \<open>Cancellation\<close>

text \<open>
  The \<^verbatim>\<open>for\<close> loop of \<^verbatim>\<open>OrderBook::cancel\<close> over one queue: the first order whose id is
  \<open>i\<close> is erased; \<open>None\<close> when the loop runs to \<^verbatim>\<open>level.end()\<close>.
\<close>

fun erase_id :: "order_id \<Rightarrow> level \<Rightarrow> level option" where
  "erase_id i [] = None"
| "erase_id i (x # xs) =
     (if id_o x = i then Some xs
      else (case erase_id i xs of None \<Rightarrow> None | Some xs' \<Rightarrow> Some (x # xs')))"

text \<open>Writing a queue back at its key, and \<^verbatim>\<open>book.erase(level_it)\<close>.\<close>

fun set_level :: "real \<Rightarrow> level \<Rightarrow> ladder \<Rightarrow> ladder" where
  "set_level p l [] = []"
| "set_level p l ((k, lvl) # book) =
     (if k = p then (k, l) # book else (k, lvl) # set_level p l book)"

fun erase_level :: "real \<Rightarrow> ladder \<Rightarrow> ladder" where
  "erase_level p [] = []"
| "erase_level p ((k, lvl) # book) =
     (if k = p then book else (k, lvl) # erase_level p book)"

text \<open>The body of one side of \<^verbatim>\<open>cancel\<close>, on the ladder that the index entry names:
  the new ladder when the order was found, \<open>None\<close> when control falls through.\<close>

definition cancel_in :: "order_id \<Rightarrow> real \<Rightarrow> ladder \<Rightarrow> ladder option" where
  "cancel_in i price book =
     (case map_of book price of
        None \<Rightarrow> None
      | Some lvl \<Rightarrow>
          (case erase_id i lvl of
             None \<Rightarrow> None
           | Some lvl' \<Rightarrow>
               Some (if lvl' = [] then erase_level price book else set_level price lvl' book)))"

definition cancel :: "order_id \<Rightarrow> order_book \<Rightarrow> bool \<times> order_book" where
  "cancel i s =
     (case order_index s i of
        None \<Rightarrow> (False, s)
      | Some (price, is_bid) \<Rightarrow>
          if is_bid then
            (case cancel_in i price (bids s) of
               Some book' \<Rightarrow> (True, s\<lparr>bids := book', order_index := (order_index s)(i := None)\<rparr>)
             | None \<Rightarrow> (False, s\<lparr>order_index := (order_index s)(i := None)\<rparr>))
          else
            (case cancel_in i price (asks s) of
               Some book' \<Rightarrow> (True, s\<lparr>asks := book', order_index := (order_index s)(i := None)\<rparr>)
             | None \<Rightarrow> (False, s\<lparr>order_index := (order_index s)(i := None)\<rparr>)))"

subsection \<open>Reset and counting\<close>

definition clear :: "order_book \<Rightarrow> order_book" where
  "clear s = s\<lparr>bids := [], asks := [], order_index := Map.empty, trades := []\<rparr>"

definition total_orders :: "order_book \<Rightarrow> nat" where
  "total_orders s = card (dom (order_index s))"

subsection \<open>Sequences of calls\<close>

text \<open>The public mutating calls of \<^verbatim>\<open>OrderBook\<close>, as the host process issues them one
  after the other on one engine.\<close>

datatype op =
    Add_limit real int bool
  | Add_market int bool
  | Cancel order_id
  | Clear

fun step :: "op \<Rightarrow> order_book \<Rightarrow> order_book" where
  "step (Add_limit price qty is_bid) s = snd (add_limit price qty is_bid s)"
| "step (Add_market qty is_bid) s = snd (add_market qty is_bid s)"
| "step (Cancel i) s = snd (cancel i s)"
| "step Clear s = clear s"

fun run :: "op list \<Rightarrow> order_book \<Rightarrow> order_book" where
  "run [] s = s"
| "run (c # cs) s = run cs (step c s)"

definition reachable :: "order_book \<Rightarrow> bool" where
  "reachable s = (\<exists>cs. s = run cs empty_book)"

subsection \<open>Submission over every value of a double\<close>

text \<open>
  A \<^verbatim>\<open>double\<close> is a number, an infinity or NaN. The comparisons are those of IEEE 754:
  every comparison with NaN is false. (The two zeros compare equal and are one number
  here.)
\<close>

datatype double = Number real | PosInf | NegInf | NaN

instantiation double :: ord
begin

definition less_double :: "double \<Rightarrow> double \<Rightarrow> bool" where
  "less_double x y =
     (case (x, y) of
        (Number a, Number b) \<Rightarrow> a < b
      | (Number a, PosInf) \<Rightarrow> True
      | (NegInf, Number b) \<Rightarrow> True
      | (NegInf, PosInf) \<Rightarrow> True
      | _ \<Rightarrow> False)"

definition less_eq_double :: "double \<Rightarrow> double \<Rightarrow> bool" where
  "less_eq_double x y =
     (case (x, y) of
        (Number a, Number b) \<Rightarrow> a \<le> b
      | (Number a, PosInf) \<Rightarrow> True
      | (NegInf, Number b) \<Rightarrow> True
      | (NegInf, NegInf) \<Rightarrow> True
      | (NegInf, PosInf) \<Rightarrow> True
      | (PosInf, PosInf) \<Rightarrow> True
      | _ \<Rightarrow> False)"

instance ..

end

text \<open>
  \<^verbatim>\<open>Order\<close>, \<^verbatim>\<open>Trade\<close> and \<^verbatim>\<open>OrderBook\<close> with such prices, and \<^verbatim>\<open>OrderBook::match\<close> and
  \<^verbatim>\<open>OrderBook::add_limit\<close> on them: the definitions of the sections above, word for word,
  with the suffix \<open>_d\<close>.
\<close>

record order_d =
  id_d :: order_id
  price_d :: double
  qty_d :: int

record trade_d =
  buyer_id_d :: order_id
  seller_id_d :: order_id
  price_td :: double
  qty_td :: int

type_synonym level_d = "order_d list"
type_synonym ladder_d = "(double \<times> level_d) list"
type_synonym index_d = "order_id \<rightharpoonup> double \<times> bool"

record order_book_d =
  bids_d :: ladder_d
  asks_d :: ladder_d
  order_index_d :: index_d
  trades_d :: "trade_d list"
  next_id_d :: order_id


definition emplace_trade_d :: "bool \<Rightarrow> order_d \<Rightarrow> order_d \<Rightarrow> double \<Rightarrow> int \<Rightarrow> trade_d" where
  "emplace_trade_d is_bid inc resting p trade_qty =
     (if is_bid
      then \<lparr>buyer_id_d = id_d inc, seller_id_d = id_d resting, price_td = p, qty_td = trade_qty\<rparr>
      else \<lparr>buyer_id_d = id_d resting, seller_id_d = id_d inc, price_td = p, qty_td = trade_qty\<rparr>)"


definition crosses_d :: "bool \<Rightarrow> double \<Rightarrow> double \<Rightarrow> bool" where
  "crosses_d is_bid level_price inc_price =
     (if is_bid then level_price \<le> inc_price else level_price \<ge> inc_price)"





section \<open>Notions for stating the properties\<close>

text \<open>
  None of the definitions of this section is part of the engine. They name what the
  statements below talk about: sums of quantities, where an id rests, the invariant of
  reachable states, a ledger kept beside a run, the shape of a first-in-first-out
  fill, the work of a scan, the order of submission, the books with real prices among
  those with \<open>double\<close> prices, and a few concrete books.
\<close>

subsection \<open>Ladders\<close>

text \<open>The ladder of one side, and whether an order with id \<open>i\<close> rests at price \<open>p\<close> in a
  ladder.\<close>

definition side :: "bool \<Rightarrow> order_book \<Rightarrow> ladder" where
  "side is_bid s = (if is_bid then bids s else asks s)"

definition rests :: "ladder \<Rightarrow> order_id \<Rightarrow> real \<Rightarrow> bool" where
  "rests book i p = (\<exists>lvl. (p, lvl) \<in> set book \<and> i \<in> id_o ` set lvl)"

text \<open>The queue at a price, empty when the ladder has no such level.\<close>

definition queue_at :: "ladder \<Rightarrow> real \<Rightarrow> level" where
  "queue_at book p = (case map_of book p of None \<Rightarrow> [] | Some lvl \<Rightarrow> lvl)"

text \<open>The best quotes, read as \<^verbatim>\<open>print_top\<close> reads them: the key of the first entry of
  each ladder, when there is one.\<close>

definition best_bid :: "order_book \<Rightarrow> real option" where
  "best_bid s = (case bids s of [] \<Rightarrow> None | (p, lvl) # book \<Rightarrow> Some p)"

definition best_ask :: "order_book \<Rightarrow> real option" where
  "best_ask s = (case asks s of [] \<Rightarrow> None | (p, lvl) # book \<Rightarrow> Some p)"

subsection \<open>Quantities\<close>

definition sum_qty :: "level \<Rightarrow> int" where
  "sum_qty lvl = sum_list (map qty_o lvl)"

definition sum_trades :: "trade list \<Rightarrow> int" where
  "sum_trades ts = sum_list (map qty_t ts)"

definition ladder_qty :: "ladder \<Rightarrow> int" where
  "ladder_qty book = sum_list (map (\<lambda>(p, lvl). sum_qty lvl) book)"

text \<open>What rests in the book and what the trade log records.\<close>

definition resting_qty :: "order_book \<Rightarrow> int" where
  "resting_qty s = ladder_qty (bids s) + ladder_qty (asks s)"

definition traded_qty :: "order_book \<Rightarrow> int" where
  "traded_qty s = sum_trades (trades s)"

subsection \<open>The invariant\<close>

text \<open>Every level holds at least one order, and every resting order has a positive
  quantity and the price of its level.\<close>

definition levels_ok :: "ladder \<Rightarrow> bool" where
  "levels_ok book = (\<forall>(p, lvl)\<in>set book. lvl \<noteq> [] \<and> (\<forall>x\<in>set lvl. 0 < qty_o x \<and> price_o x = p))"

text \<open>The order in which \<open>match\<close> walks the ladder opposite to an incoming order: asks
  ascending for an incoming bid, bids descending for an incoming ask.\<close>

definition opposing_sorted :: "bool \<Rightarrow> ladder \<Rightarrow> bool" where
  "opposing_sorted is_bid book =
     (if is_bid then sorted_wrt (<) (map fst book) else sorted_wrt (>) (map fst book))"

text \<open>
  The invariant of the engine: the levels of both ladders are as above, both ladders are
  strictly ordered (so no price occurs twice), every bid price is below every ask
  price, and every index entry points at a level where an order with that id rests.
\<close>

definition invar :: "order_book \<Rightarrow> bool" where
  "invar s =
     (levels_ok (bids s) \<and> levels_ok (asks s) \<and>
      sorted_wrt (>) (map fst (bids s)) \<and> sorted_wrt (<) (map fst (asks s)) \<and>
      (\<forall>b\<in>fst ` set (bids s). \<forall>a\<in>fst ` set (asks s). b < a) \<and>
      (\<forall>i p b. order_index s i = Some (p, b) \<longrightarrow> rests (side b s) i p))"

subsection \<open>The parts of a submission\<close>

text \<open>The order that \<open>add_limit\<close> and \<open>add_market\<close> construct
  (\<^verbatim>\<open>Order inc(next_id++, price, qty)\<close>), and the state they match it in.\<close>

definition incoming :: "real \<Rightarrow> int \<Rightarrow> order_book \<Rightarrow> order" where
  "incoming price qty s = \<lparr>id_o = next_id s, price_o = price, qty_o = qty\<rparr>"

definition bump :: "order_book \<Rightarrow> order_book" where
  "bump s = s\<lparr>next_id := next_id s + 1\<rparr>"

text \<open>The insertion at the end of \<open>add_limit\<close>.\<close>

definition rest_order :: "bool \<Rightarrow> order \<Rightarrow> order_book \<Rightarrow> order_book" where
  "rest_order is_bid x s =
     (if is_bid then s\<lparr>bids := push_back_at (>) (price_o x) x (bids s)\<rparr>
      else s\<lparr>asks := push_back_at (<) (price_o x) x (asks s)\<rparr>)
     \<lparr>order_index := (order_index s)(id_o x \<mapsto> (price_o x, is_bid))\<rparr>"

text \<open>The price that \<open>add_market\<close> gives its order, and the quantity the order still has
  when \<open>match\<close> returns; \<open>add_market\<close> discards both with the order.\<close>

definition market_price :: "bool \<Rightarrow> real" where
  "market_price is_bid = (if is_bid then 1000000000 else 0)"

definition market_residual :: "int \<Rightarrow> bool \<Rightarrow> order_book \<Rightarrow> int" where
  "market_residual qty is_bid s =
     qty_o (fst (match (incoming (market_price is_bid) qty s) is_bid (bump s)))"

subsection \<open>Trades\<close>

text \<open>A trade of the incoming order \<open>i\<close> against an order that rests on the other side of \<open>s\<close>.\<close>

definition trade_against :: "order_book \<Rightarrow> bool \<Rightarrow> order_id \<Rightarrow> trade \<Rightarrow> bool" where
  "trade_against s is_bid i t =
     (\<exists>p lvl r. (p, lvl) \<in> set (side (\<not> is_bid) s) \<and> r \<in> set lvl \<and>
        price_t t = p \<and> price_o r = p \<and>
        buyer_id t = (if is_bid then i else id_o r) \<and>
        seller_id t = (if is_bid then id_o r else i))"

text \<open>The resting party of a trade that was made for an incoming order of the given side.\<close>

definition resting_id :: "bool \<Rightarrow> trade \<Rightarrow> order_id" where
  "resting_id is_bid t = (if is_bid then seller_id t else buyer_id t)"

text \<open>
  What price-time priority says of one queue \<open>lvl\<close>, the queue \<open>lvl'\<close> that is left of it,
  and the trades \<open>new\<close> made against it for one incoming order: the trades are against
  the orders of the queue in queue order, one trade each; the first \<open>k\<close> orders are
  filled for their whole quantity and are the ones removed; at most one more trade
  fills the next order in part, and that order stays at the front with a smaller
  quantity; every order behind is untouched and keeps its place.
\<close>

definition fifo_fill :: "bool \<Rightarrow> level \<Rightarrow> level \<Rightarrow> trade list \<Rightarrow> bool" where
  "fifo_fill is_bid lvl lvl' new =
     (\<exists>k. k \<le> length lvl \<and>
        map (resting_id is_bid) new = take (length new) (map id_o lvl) \<and>
        take k (map qty_t new) = take k (map qty_o lvl) \<and>
        ((length new = k \<and> lvl' = drop k lvl) \<or>
         (length new = Suc k \<and> k < length lvl \<and>
          0 < qty_t (last new) \<and> qty_t (last new) < qty_o (lvl ! k) \<and>
          lvl' = (lvl ! k)\<lparr>qty_o := qty_o (lvl ! k) - qty_t (last new)\<rparr> # drop (Suc k) lvl)))"

subsection \<open>A ledger beside the run\<close>

text \<open>
  The engine keeps no record of what was submitted, dropped or cancelled. The ledger
  below is kept beside a run: at each call it adds the quantity of an accepted submission
  (\<open>qty > 0\<close>), the quantity that a market order still has when \<open>match\<close> returns, and the
  quantity of the order that a successful \<open>cancel\<close> erases (the first order with that id
  in the queue that the index entry names).
\<close>

record ledger =
  submitted :: int
  dropped :: int
  cancelled :: int

definition cancelled_qty :: "order_id \<Rightarrow> order_book \<Rightarrow> int" where
  "cancelled_qty i s =
     (case order_index s i of
        None \<Rightarrow> 0
      | Some (price, is_bid) \<Rightarrow>
          (case map_of (side is_bid s) price of
             None \<Rightarrow> 0
           | Some lvl \<Rightarrow> (case find (\<lambda>x. id_o x = i) lvl of None \<Rightarrow> 0 | Some x \<Rightarrow> qty_o x)))"

fun account :: "op \<Rightarrow> order_book \<Rightarrow> ledger \<Rightarrow> ledger" where
  "account (Add_limit price qty is_bid) s l =
     (if 0 < qty then l\<lparr>submitted := submitted l + qty\<rparr> else l)"
| "account (Add_market qty is_bid) s l =
     (if 0 < qty
      then l\<lparr>submitted := submitted l + qty, dropped := dropped l + market_residual qty is_bid s\<rparr>
      else l)"
| "account (Cancel i) s l =
     (if fst (cancel i s) then l\<lparr>cancelled := cancelled l + cancelled_qty i s\<rparr> else l)"
| "account Clear s l = l"

fun audit :: "op list \<Rightarrow> order_book \<Rightarrow> ledger \<Rightarrow> ledger" where
  "audit [] s l = l"
| "audit (c # cs) s l = audit cs (step c s) (account c s l)"

definition no_ledger :: ledger where
  "no_ledger = \<lparr>submitted = 0, dropped = 0, cancelled = 0\<rparr>"

text \<open>What the ledger has taken in and the book does not account for.\<close>

definition balance :: "order_book \<Rightarrow> ledger \<Rightarrow> int" where
  "balance s l =
     submitted l - (resting_qty s + 2 * traded_qty s + dropped l + cancelled l)"

subsection \<open>The work of a cancellation\<close>

text \<open>
  The number of times the \<^verbatim>\<open>for\<close> loop of \<^verbatim>\<open>OrderBook::cancel\<close> tests
  \<^verbatim>\<open>order_it->id == id\<close>: one test for each order of the queue up to and including the
  one it erases. \<open>scan_steps\<close> follows the recursion of \<open>erase_id\<close>, and
  \<open>cancel_scan_steps\<close> the way \<open>cancel\<close> reaches the queue.
\<close>

fun scan_steps :: "order_id \<Rightarrow> level \<Rightarrow> nat" where
  "scan_steps i [] = 0"
| "scan_steps i (x # xs) = (if id_o x = i then 1 else 1 + scan_steps i xs)"

definition cancel_scan_steps :: "order_id \<Rightarrow> order_book \<Rightarrow> nat" where
  "cancel_scan_steps i s =
     (case order_index s i of
        None \<Rightarrow> 0
      | Some (price, is_bid) \<Rightarrow>
          (case map_of (side is_bid s) price of None \<Rightarrow> 0 | Some lvl \<Rightarrow> scan_steps i lvl))"

subsection \<open>Identifiers\<close>

text \<open>
  \<^verbatim>\<open>next_id\<close> is a \<^verbatim>\<open>uint64_t\<close> that starts at 1 and is incremented once for each accepted
  submission. As long as it has not wrapped around, it is above the id of every order
  that rests and of every party of a recorded trade, and none of these ids is 0.
\<close>

definition ids_below :: "order_book \<Rightarrow> bool" where
  "ids_below s =
     (0 < unat (next_id s) \<and>
      (\<forall>i p c. rests (side c s) i p \<longrightarrow> 0 < unat i \<and> unat i < unat (next_id s)) \<and>
      (\<forall>t\<in>set (trades s).
         unat (buyer_id t) < unat (next_id s) \<and> unat (seller_id t) < unat (next_id s)))"

text \<open>An id that no order can get any more: it is below \<open>next_id\<close> and rests nowhere.\<close>

definition never_rests :: "order_id \<Rightarrow> order_book \<Rightarrow> bool" where
  "never_rests i s = (unat i < unat (next_id s) \<and> (\<forall>k c. \<not> rests (side c s) i k))"

text \<open>Every resting order is indexed at the price and side where it rests, and no queue
  holds an id twice.\<close>

definition indexed_once :: "order_book \<Rightarrow> bool" where
  "indexed_once s =
     ((\<forall>c i p. rests (side c s) i p \<longrightarrow> order_index s i = Some (p, c)) \<and>
      (\<forall>c. \<forall>(p, lvl)\<in>set (side c s). distinct (map id_o lvl)))"

subsection \<open>Submission order\<close>

text \<open>The ids that the calls of a run returned for the submissions they accepted
  (\<open>qty > 0\<close>), in the order of the calls.\<close>

fun accepted :: "op \<Rightarrow> order_book \<Rightarrow> order_id list" where
  "accepted (Add_limit price qty is_bid) s =
     (if 0 < qty then [fst (add_limit price qty is_bid s)] else [])"
| "accepted (Add_market qty is_bid) s =
     (if 0 < qty then [fst (add_market qty is_bid s)] else [])"
| "accepted (Cancel i) s = []"
| "accepted Clear s = []"

fun submissions :: "op list \<Rightarrow> order_book \<Rightarrow> order_id list" where
  "submissions [] s = []"
| "submissions (c # cs) s = accepted c s @ submissions cs (step c s)"

text \<open>A queue is in submission order when its ids, front first, are the submissions of
  the run, in their order, restricted to the ids of the queue.\<close>

definition in_submission_order :: "order_id list \<Rightarrow> level \<Rightarrow> bool" where
  "in_submission_order subs lvl = (map id_o lvl = [i\<leftarrow>subs. i \<in> id_o ` set lvl])"

text \<open>Ids that grow from the front of a queue to its tail.\<close>

definition ascending :: "level \<Rightarrow> bool" where
  "ascending lvl = sorted_wrt (<) (map unat (map id_o lvl))"

definition ascending_ids :: "order_book \<Rightarrow> bool" where
  "ascending_ids s = (\<forall>c. \<forall>(p, lvl)\<in>set (side c s). ascending lvl)"

subsection \<open>The numbers among the doubles\<close>

text \<open>Orders, trades and books with real prices, read as orders, trades and books with
  \<open>double\<close> prices.\<close>

definition num_order :: "order \<Rightarrow> order_d" where
  "num_order x = \<lparr>id_d = id_o x, price_d = Number (price_o x), qty_d = qty_o x\<rparr>"

definition num_trade :: "trade \<Rightarrow> trade_d" where
  "num_trade t =
     \<lparr>buyer_id_d = buyer_id t, seller_id_d = seller_id t, price_td = Number (price_t t),
      qty_td = qty_t t\<rparr>"

definition num_ladder :: "ladder \<Rightarrow> ladder_d" where
  "num_ladder book = map (\<lambda>(p, lvl). (Number p, map num_order lvl)) book"

definition num_index :: "index \<Rightarrow> index_d" where
  "num_index idx = (\<lambda>i. map_option (\<lambda>(p, b). (Number p, b)) (idx i))"

definition num_book :: "order_book \<Rightarrow> order_book_d" where
  "num_book s =
     \<lparr>bids_d = num_ladder (bids s), asks_d = num_ladder (asks s),
      order_index_d = num_index (order_index s), trades_d = map num_trade (trades s),
      next_id_d = next_id s\<rparr>"

subsection \<open>Concrete books\<close>

text \<open>Books and runs on which the statements are instantiated; several are scenarios of
  \<^verbatim>\<open>test.cpp\<close>.\<close>

definition two_sided :: order_book where
  "two_sided = run [Add_limit 100 50 True, Add_limit 101 50 False, Add_limit 99 10 True] empty_book"

definition three_bids :: order_book where
  "three_bids = run [Add_limit 99 100 True, Add_limit 99.5 100 True, Add_limit 100.5 100 False] empty_book"

definition one_ask :: order_book where
  "one_ask = run [Add_limit 100.5 50 False] empty_book"


definition three_asks :: order_book where
  "three_asks = run [Add_limit 100 50 False, Add_limit 100 50 False, Add_limit 100 50 False] empty_book"

definition basic_cross :: "op list" where
  "basic_cross = [Add_limit 100.5 50 False, Add_limit 100.5 30 True]"

definition mixed_run :: "op list" where
  "mixed_run =
     [Add_limit 100 100 False, Add_limit 101 40 False, Add_market 120 True, Cancel 2,
      Add_market 50 True]"

text \<open>An ask above the sentinel \<^verbatim>\<open>1e9\<close> and a bid below \<^verbatim>\<open>0.0\<close>, which \<open>add_limit\<close>
  accepts like any other price.\<close>

definition far_ask :: order_book where
  "far_ask = run [Add_limit 2000000000 10 False] empty_book"

definition low_bid :: order_book where
  "low_bid = run [Add_limit (- 1) 10 True] empty_book"

text \<open>A queue of \<open>n\<close> asks of one unit at one price, submitted one after the other.\<close>

definition same_price_asks :: "real \<Rightarrow> nat \<Rightarrow> order_book" where
  "same_price_asks p n = run (replicate n (Add_limit p 1 False)) empty_book"

definition unit_ask :: "real \<Rightarrow> nat \<Rightarrow> order" where
  "unit_ask p j = \<lparr>id_o = of_nat j, price_o = p, qty_o = 1\<rparr>"

text \<open>Four asks at one price, the second of which is cancelled.\<close>

definition queue_with_gap :: "op list" where
  "queue_with_gap =
     [Add_limit 100 50 False, Add_limit 100 50 False, Add_limit 100 50 False,
      Add_limit 100 50 False, Cancel 2]"


definition drained :: order_book where
  "drained = snd (add_market 250 True (run [Add_limit 100 100 False] empty_book))"

section \<open>The matching loops\<close>

text \<open>
  The inner loop either fills the front order entirely and pops it, or fills the incoming
  order entirely and stops: the equation below is the loop body with \<^verbatim>\<open>std::min\<close>
  resolved, and every later proof about the loop is by induction on the queue with it.
\<close>

lemma match_level_Cons:
  "match_level b inc p (r # rest) idx ts =
     (if 0 < qty_o inc then
        (if qty_o r \<le> qty_o inc
         then match_level b (inc\<lparr>qty_o := qty_o inc - qty_o r\<rparr>) p rest
                (idx(id_o r := None)) (ts @ [emplace_trade b inc r p (qty_o r)])
         else (inc\<lparr>qty_o := 0\<rparr>, r\<lparr>qty_o := qty_o r - qty_o inc\<rparr> # rest, idx,
               ts @ [emplace_trade b inc r p (qty_o inc)]))
      else (inc, r # rest, idx, ts))"
  by (simp add: Let_def min_def)

declare match_level.simps(2) [simp del]

lemma emplace_trade_qty_update [simp]:
  "emplace_trade b (inc\<lparr>qty_o := q'\<rparr>) r p q = emplace_trade b inc r p q"
  by (simp add: emplace_trade_def)

lemma emplace_trade_sel [simp]:
  "price_t (emplace_trade b inc r p q) = p"
  "qty_t (emplace_trade b inc r p q) = q"
  "buyer_id (emplace_trade b inc r p q) = (if b then id_o inc else id_o r)"
  "seller_id (emplace_trade b inc r p q) = (if b then id_o r else id_o inc)"
  by (simp_all add: emplace_trade_def)

lemma match_level_done:
  "match_level b inc p lvl idx ts = (inc', lvl', idx', ts') \<Longrightarrow> qty_o inc' \<le> 0 \<or> lvl' = []"
proof (induction lvl arbitrary: inc idx ts)
  case Nil
  then show ?case by simp
next
  case (Cons r rest)
  then show ?case
    by (simp only: match_level_Cons split: if_splits) auto
qed

lemma match_level_idle:
  "qty_o inc \<le> 0 \<Longrightarrow> match_level b inc p lvl idx ts = (inc, lvl, idx, ts)"
  by (cases lvl) (simp_all add: match_level_Cons)

lemma match_level_same_order:
  "match_level b inc p lvl idx ts = (inc', lvl', idx', ts') \<Longrightarrow>
   id_o inc' = id_o inc \<and> price_o inc' = price_o inc"
proof (induction lvl arbitrary: inc idx ts)
  case Nil
  then show ?case by simp
next
  case (Cons r rest)
  then show ?case
    by (simp only: match_level_Cons split: if_splits) fastforce+
qed

lemma match_level_conserves:
  "match_level b inc p lvl idx ts = (inc', lvl', idx', ts') \<Longrightarrow>
   sum_qty lvl - sum_qty lvl' = qty_o inc - qty_o inc' \<and>
   sum_trades ts' - sum_trades ts = qty_o inc - qty_o inc'"
proof (induction lvl arbitrary: inc idx ts)
  case Nil
  then show ?case by simp
next
  case (Cons r rest)
  show ?case
  proof (cases "0 < qty_o inc \<and> qty_o r \<le> qty_o inc")
    case True
    with Cons.prems have
      "match_level b (inc\<lparr>qty_o := qty_o inc - qty_o r\<rparr>) p rest (idx(id_o r := None))
         (ts @ [emplace_trade b inc r p (qty_o r)]) = (inc', lvl', idx', ts')"
      by (simp add: match_level_Cons)
    from Cons.IH [OF this] show ?thesis
      by (simp add: sum_qty_def sum_trades_def)
  next
    case False
    with Cons.prems show ?thesis
      by (auto simp: match_level_Cons sum_qty_def sum_trades_def split: if_splits)
  qed
qed

lemma match_level_positive:
  "match_level b inc p lvl idx ts = (inc', lvl', idx', ts') \<Longrightarrow>
   \<forall>x\<in>set lvl. 0 < qty_o x \<Longrightarrow> 0 \<le> qty_o inc \<Longrightarrow>
   (\<forall>x\<in>set lvl'. 0 < qty_o x) \<and> 0 \<le> qty_o inc'"
proof (induction lvl arbitrary: inc idx ts)
  case Nil
  then show ?case by simp
next
  case (Cons r rest)
  show ?case
  proof (cases "0 < qty_o inc \<and> qty_o r \<le> qty_o inc")
    case True
    with Cons.prems have
      "match_level b (inc\<lparr>qty_o := qty_o inc - qty_o r\<rparr>) p rest (idx(id_o r := None))
         (ts @ [emplace_trade b inc r p (qty_o r)]) = (inc', lvl', idx', ts')"
      by (simp add: match_level_Cons)
    from Cons.IH [OF this] Cons.prems True show ?thesis
      by simp
  next
    case False
    with Cons.prems show ?thesis
      by (auto simp: match_level_Cons split: if_splits)
  qed
qed

lemma match_level_prices:
  "match_level b inc p lvl idx ts = (inc', lvl', idx', ts') \<Longrightarrow>
   \<forall>x\<in>set lvl. price_o x = p \<Longrightarrow> \<forall>x\<in>set lvl'. price_o x = p"
proof (induction lvl arbitrary: inc idx ts)
  case Nil
  then show ?case by simp
next
  case (Cons r rest)
  show ?case
  proof (cases "0 < qty_o inc \<and> qty_o r \<le> qty_o inc")
    case True
    with Cons.prems have
      "match_level b (inc\<lparr>qty_o := qty_o inc - qty_o r\<rparr>) p rest (idx(id_o r := None))
         (ts @ [emplace_trade b inc r p (qty_o r)]) = (inc', lvl', idx', ts')"
      by (simp add: match_level_Cons)
    from Cons.IH [OF this] Cons.prems True show ?thesis
      by simp
  next
    case False
    with Cons.prems show ?thesis
      by (auto simp: match_level_Cons split: if_splits)
  qed
qed

lemma match_level_ids:
  "match_level b inc p lvl idx ts = (inc', lvl', idx', ts') \<Longrightarrow>
   id_o ` set lvl' \<subseteq> id_o ` set lvl"
proof (induction lvl arbitrary: inc idx ts)
  case Nil
  then show ?case by simp
next
  case (Cons r rest)
  show ?case
  proof (cases "0 < qty_o inc \<and> qty_o r \<le> qty_o inc")
    case True
    with Cons.prems have
      "match_level b (inc\<lparr>qty_o := qty_o inc - qty_o r\<rparr>) p rest (idx(id_o r := None))
         (ts @ [emplace_trade b inc r p (qty_o r)]) = (inc', lvl', idx', ts')"
      by (simp add: match_level_Cons)
    from Cons.IH [OF this] show ?thesis
      by auto
  next
    case False
    with Cons.prems show ?thesis
      by (auto simp: match_level_Cons split: if_splits)
  qed
qed

text \<open>Index entries only disappear, and do so only for an order that has left the queue.\<close>

lemma match_level_index:
  "match_level b inc p lvl idx ts = (inc', lvl', idx', ts') \<Longrightarrow>
   (\<forall>i v. idx' i = Some v \<longrightarrow> idx i = Some v \<and> (i \<in> id_o ` set lvl \<longrightarrow> i \<in> id_o ` set lvl')) \<and>
   (\<forall>i. i \<notin> id_o ` set lvl \<longrightarrow> idx' i = idx i)"
proof (induction lvl arbitrary: inc idx ts)
  case Nil
  then show ?case by simp
next
  case (Cons r rest)
  show ?case
  proof (cases "0 < qty_o inc \<and> qty_o r \<le> qty_o inc")
    case True
    with Cons.prems have
      "match_level b (inc\<lparr>qty_o := qty_o inc - qty_o r\<rparr>) p rest (idx(id_o r := None))
         (ts @ [emplace_trade b inc r p (qty_o r)]) = (inc', lvl', idx', ts')"
      by (simp add: match_level_Cons)
    from Cons.IH [OF this] show ?thesis
      by (auto split: if_splits)
  next
    case False
    with Cons.prems show ?thesis
      by (auto simp: match_level_Cons split: if_splits)
  qed
qed

lemma match_level_index_sub:
  "match_level b inc p lvl idx ts = (inc', lvl', idx', ts') \<Longrightarrow> idx' i = Some v \<Longrightarrow> idx i = Some v"
  by (drule match_level_index) blast

lemma match_level_index_keep:
  "match_level b inc p lvl idx ts = (inc', lvl', idx', ts') \<Longrightarrow> idx' i = Some v \<Longrightarrow>
   i \<in> id_o ` set lvl \<Longrightarrow> i \<in> id_o ` set lvl'"
  by (drule match_level_index) blast

lemma match_level_index_other:
  "match_level b inc p lvl idx ts = (inc', lvl', idx', ts') \<Longrightarrow> i \<notin> id_o ` set lvl \<Longrightarrow> idx' i = idx i"
  by (drule match_level_index) blast

text \<open>Every trade of the loop is against an order of the queue, at the level's price.\<close>

lemma match_level_trades:
  "match_level b inc p lvl idx ts = (inc', lvl', idx', ts') \<Longrightarrow>
   \<exists>new. ts' = ts @ new \<and>
     (\<forall>t\<in>set new. \<exists>r\<in>set lvl. t = emplace_trade b inc r p (qty_t t))"
proof (induction lvl arbitrary: inc idx ts)
  case Nil
  then show ?case by simp
next
  case (Cons r rest)
  show ?case
  proof (cases "0 < qty_o inc \<and> qty_o r \<le> qty_o inc")
    case True
    with Cons.prems have
      "match_level b (inc\<lparr>qty_o := qty_o inc - qty_o r\<rparr>) p rest (idx(id_o r := None))
         (ts @ [emplace_trade b inc r p (qty_o r)]) = (inc', lvl', idx', ts')"
      by (simp add: match_level_Cons)
    from Cons.IH [OF this] obtain new where
      new: "ts' = (ts @ [emplace_trade b inc r p (qty_o r)]) @ new"
        "\<forall>t\<in>set new. \<exists>x\<in>set rest. t = emplace_trade b inc x p (qty_t t)"
      by auto
    show ?thesis
      by (rule exI [of _ "emplace_trade b inc r p (qty_o r) # new"]) (use new in auto)
  next
    case False
    with Cons.prems show ?thesis
      by (auto simp: match_level_Cons split: if_splits)
  qed
qed

lemma levels_ok_Nil [simp]: "levels_ok []"
  by (simp add: levels_ok_def)

lemma levels_ok_Cons:
  "levels_ok ((p, lvl) # book) =
     (lvl \<noteq> [] \<and> (\<forall>x\<in>set lvl. 0 < qty_o x \<and> price_o x = p) \<and> levels_ok book)"
  by (auto simp: levels_ok_def)

lemma rests_Nil [simp]: "\<not> rests [] i p"
  by (simp add: rests_def)

lemma rests_Cons:
  "rests ((k, lvl) # book) i p = ((k = p \<and> i \<in> id_o ` set lvl) \<or> rests book i p)"
  by (auto simp: rests_def)

lemma ladder_qty_simps [simp]:
  "ladder_qty [] = 0"
  "ladder_qty ((p, lvl) # book) = sum_qty lvl + ladder_qty book"
  by (simp_all add: ladder_qty_def)

lemma match_book_idle:
  "qty_o inc \<le> 0 \<Longrightarrow> match_book b inc book idx ts = (inc, book, idx, ts)"
  by (cases book) auto

text \<open>One unfolding of the outer loop, with the level's result named.\<close>

lemma match_book_Cons:
  assumes "match_level b inc p lvl idx ts = (inc1, lvl1, idx1, ts1)"
    and "0 < qty_o inc" and "crosses b p (price_o inc)"
  shows "match_book b inc ((p, lvl) # book) idx ts =
     (if lvl1 = [] then match_book b inc1 book idx1 ts1
      else (inc1, (p, lvl1) # book, idx1, ts1))"
proof (cases "lvl1 = []")
  case True
  with assms show ?thesis by simp
next
  case False
  with match_level_done [OF assms(1)] have "qty_o inc1 \<le> 0" by simp
  then have "match_book b inc1 book idx1 ts1 = (inc1, book, idx1, ts1)"
    by (rule match_book_idle)
  with assms False show ?thesis by simp
qed

lemma match_book_skip:
  "\<not> (0 < qty_o inc \<and> crosses b p (price_o inc)) \<Longrightarrow>
   match_book b inc ((p, lvl) # book) idx ts = (inc, (p, lvl) # book, idx, ts)"
  by auto

declare match_book.simps(2) [simp del]

text \<open>An induction principle that follows the three ways the outer loop treats a level.\<close>

lemma match_book_induct [case_names Nil Stop Erase Keep]:
  assumes Nil: "\<And>inc idx tr. P inc [] idx tr"
    and Stop: "\<And>inc p lvl book idx tr.
          \<not> (0 < qty_o inc \<and> crosses b p (price_o inc)) \<Longrightarrow>
          match_book b inc ((p, lvl) # book) idx tr = (inc, (p, lvl) # book, idx, tr) \<Longrightarrow>
          P inc ((p, lvl) # book) idx tr"
    and Erase: "\<And>inc p lvl book idx tr inc1 idx1 tr1.
          0 < qty_o inc \<Longrightarrow> crosses b p (price_o inc) \<Longrightarrow>
          match_level b inc p lvl idx tr = (inc1, [], idx1, tr1) \<Longrightarrow>
          match_book b inc ((p, lvl) # book) idx tr = match_book b inc1 book idx1 tr1 \<Longrightarrow>
          P inc1 book idx1 tr1 \<Longrightarrow> P inc ((p, lvl) # book) idx tr"
    and Keep: "\<And>inc p lvl book idx tr inc1 lvl1 idx1 tr1.
          0 < qty_o inc \<Longrightarrow> crosses b p (price_o inc) \<Longrightarrow>
          match_level b inc p lvl idx tr = (inc1, lvl1, idx1, tr1) \<Longrightarrow>
          lvl1 \<noteq> [] \<Longrightarrow> qty_o inc1 \<le> 0 \<Longrightarrow>
          match_book b inc ((p, lvl) # book) idx tr = (inc1, (p, lvl1) # book, idx1, tr1) \<Longrightarrow>
          P inc ((p, lvl) # book) idx tr"
  shows "P inc book idx tr"
proof (induction book arbitrary: inc idx tr)
  case Nil
  show ?case by (rule assms(1))
next
  case (Cons a book inc idx tr)
  obtain p lvl where a: "a = (p, lvl)" by (cases a)
  show ?case
  proof (cases "0 < qty_o inc \<and> crosses b p (price_o inc)")
    case False
    have "match_book b inc ((p, lvl) # book) idx tr = (inc, (p, lvl) # book, idx, tr)"
      using False by (rule match_book_skip)
    with False show ?thesis unfolding a by (rule Stop)
  next
    case True
    then have c: "0 < qty_o inc" "crosses b p (price_o inc)" by simp_all
    obtain inc1 lvl1 idx1 tr1 where
      l: "match_level b inc p lvl idx tr = (inc1, lvl1, idx1, tr1)"
      by (cases "match_level b inc p lvl idx tr")
    note u = match_book_Cons [OF l c, of book]
    show ?thesis
    proof (cases "lvl1 = []")
      case True
      from l True have l': "match_level b inc p lvl idx tr = (inc1, [], idx1, tr1)" by simp
      from u True have u': "match_book b inc ((p, lvl) # book) idx tr = match_book b inc1 book idx1 tr1"
        by simp
      show ?thesis unfolding a by (rule Erase [OF c l' u' Cons.IH])
    next
      case False
      with match_level_done [OF l] have q: "qty_o inc1 \<le> 0" by simp
      from u False have u': "match_book b inc ((p, lvl) # book) idx tr = (inc1, (p, lvl1) # book, idx1, tr1)"
        by simp
      show ?thesis unfolding a by (rule Keep [OF c l False q u'])
    qed
  qed
qed

lemma match_book_same_order:
  "match_book b inc book idx tr = (inc', book', idx', tr') \<Longrightarrow>
   id_o inc' = id_o inc \<and> price_o inc' = price_o inc"
proof (induction inc book idx tr rule: match_book_induct [where b = b])
  case (Nil inc idx tr)
  then show ?case by simp
next
  case (Stop inc p lvl book idx tr)
  then show ?case by simp
next
  case (Erase inc p lvl book idx tr inc1 idx1 tr1)
  from Erase.prems Erase.hyps(4) have "match_book b inc1 book idx1 tr1 = (inc', book', idx', tr')"
    by simp
  from Erase.IH [OF this] match_level_same_order [OF Erase.hyps(3)] show ?case by simp
next
  case (Keep inc p lvl book idx tr inc1 lvl1 idx1 tr1)
  from Keep.prems Keep.hyps(6) have "inc' = inc1" by simp
  with match_level_same_order [OF Keep.hyps(3)] show ?case by simp
qed

lemma match_book_conserves:
  "match_book b inc book idx tr = (inc', book', idx', tr') \<Longrightarrow>
   ladder_qty book - ladder_qty book' = qty_o inc - qty_o inc' \<and>
   sum_trades tr' - sum_trades tr = qty_o inc - qty_o inc'"
proof (induction inc book idx tr rule: match_book_induct [where b = b])
  case (Nil inc idx tr)
  then show ?case by simp
next
  case (Stop inc p lvl book idx tr)
  then show ?case by simp
next
  case (Erase inc p lvl book idx tr inc1 idx1 tr1)
  from Erase.prems Erase.hyps(4) have "match_book b inc1 book idx1 tr1 = (inc', book', idx', tr')"
    by simp
  from Erase.IH [OF this] match_level_conserves [OF Erase.hyps(3)] show ?case
    by (simp add: sum_qty_def)
next
  case (Keep inc p lvl book idx tr inc1 lvl1 idx1 tr1)
  from Keep.prems Keep.hyps(6) have "inc' = inc1" "book' = (p, lvl1) # book" "tr' = tr1"
    by simp_all
  with match_level_conserves [OF Keep.hyps(3)] show ?case by simp
qed

lemma match_book_ladder:
  "match_book b inc book idx tr = (inc', book', idx', tr') \<Longrightarrow>
   levels_ok book \<Longrightarrow> sorted_wrt lt (map fst book) \<Longrightarrow> 0 \<le> qty_o inc \<Longrightarrow>
   levels_ok book' \<and> sorted_wrt lt (map fst book') \<and> fst ` set book' \<subseteq> fst ` set book \<and>
   0 \<le> qty_o inc'"
proof (induction inc book idx tr rule: match_book_induct [where b = b])
  case (Nil inc idx tr)
  then show ?case by simp
next
  case (Stop inc p lvl book idx tr)
  then show ?case by simp
next
  case (Erase inc p lvl book idx tr inc1 idx1 tr1)
  from Erase.prems(1) Erase.hyps(4) have r: "match_book b inc1 book idx1 tr1 = (inc', book', idx', tr')"
    by simp
  from Erase.prems(2) have ok: "\<forall>x\<in>set lvl. 0 < qty_o x" "levels_ok book"
    by (simp_all add: levels_ok_Cons)
  from match_level_positive [OF Erase.hyps(3) ok(1) Erase.prems(4)] have q: "0 \<le> qty_o inc1"
    by simp
  from Erase.prems(3) have "sorted_wrt lt (map fst book)" by simp
  from Erase.IH [OF r ok(2) this q] show ?case by auto
next
  case (Keep inc p lvl book idx tr inc1 lvl1 idx1 tr1)
  from Keep.prems(1) Keep.hyps(6) have eq: "inc' = inc1" "book' = (p, lvl1) # book"
    by simp_all
  from Keep.prems(2) have ok: "\<forall>x\<in>set lvl. 0 < qty_o x" "\<forall>x\<in>set lvl. price_o x = p" "levels_ok book"
    by (simp_all add: levels_ok_Cons)
  from match_level_positive [OF Keep.hyps(3) ok(1) Keep.prems(4)]
    match_level_prices [OF Keep.hyps(3) ok(2)] Keep.hyps(4) ok(3) Keep.prems(3)
  show ?case
    unfolding eq by (simp add: levels_ok_Cons)
qed

lemma opposing_sorted_Cons:
  "opposing_sorted b ((p, lvl) # book) \<Longrightarrow>
   opposing_sorted b book \<and> (\<forall>k\<in>fst ` set book. if b then p < k else k < p)"
  by (cases b) (fastforce simp: opposing_sorted_def)+

text \<open>When the incoming order still has quantity, no level that is left crosses it.\<close>

lemma match_book_stops:
  "match_book b inc book idx tr = (inc', book', idx', tr') \<Longrightarrow>
   opposing_sorted b book \<Longrightarrow> 0 < qty_o inc' \<Longrightarrow>
   \<forall>k\<in>fst ` set book'. \<not> crosses b k (price_o inc)"
proof (induction inc book idx tr rule: match_book_induct [where b = b])
  case (Nil inc idx tr)
  then show ?case by simp
next
  case (Stop inc p lvl book idx tr)
  from Stop.prems(1) Stop.hyps(2) have eq: "inc' = inc" "book' = (p, lvl) # book" by simp_all
  with Stop.hyps(1) Stop.prems(3) have nc: "\<not> crosses b p (price_o inc)" by simp
  from opposing_sorted_Cons [OF Stop.prems(2)]
  have "\<forall>k\<in>fst ` set book. if b then p < k else k < p" by simp
  with nc show ?case
    unfolding eq by (cases b) (auto simp: crosses_def)
next
  case (Erase inc p lvl book idx tr inc1 idx1 tr1)
  from Erase.prems(1) Erase.hyps(4) have r: "match_book b inc1 book idx1 tr1 = (inc', book', idx', tr')"
    by simp
  from opposing_sorted_Cons [OF Erase.prems(2)] have "opposing_sorted b book" by simp
  from Erase.IH [OF r this Erase.prems(3)] match_level_same_order [OF Erase.hyps(3)]
  show ?case by simp
next
  case (Keep inc p lvl book idx tr inc1 lvl1 idx1 tr1)
  from Keep.prems(1) Keep.hyps(6) have "inc' = inc1" by simp
  with Keep.hyps(5) Keep.prems(3) show ?case by simp
qed

lemma match_book_rests:
  "match_book b inc book idx tr = (inc', book', idx', tr') \<Longrightarrow>
   rests book' i k \<Longrightarrow> rests book i k"
proof (induction inc book idx tr rule: match_book_induct [where b = b])
  case (Nil inc idx tr)
  then show ?case by simp
next
  case (Stop inc p lvl book idx tr)
  then show ?case by simp
next
  case (Erase inc p lvl book idx tr inc1 idx1 tr1)
  from Erase.prems(1) Erase.hyps(4) have r: "match_book b inc1 book idx1 tr1 = (inc', book', idx', tr')"
    by simp
  from Erase.IH [OF r Erase.prems(2)] show ?case by (simp add: rests_Cons)
next
  case (Keep inc p lvl book idx tr inc1 lvl1 idx1 tr1)
  from Keep.prems(1) Keep.hyps(6) have eq: "book' = (p, lvl1) # book" by simp
  from Keep.prems(2) match_level_ids [OF Keep.hyps(3)] show ?case
    unfolding eq by (auto simp: rests_Cons)
qed

lemma match_book_index:
  "match_book b inc book idx tr = (inc', book', idx', tr') \<Longrightarrow>
   (\<forall>i v. idx' i = Some v \<longrightarrow> idx i = Some v \<and> (\<forall>k. rests book i k \<longrightarrow> rests book' i k)) \<and>
   (\<forall>i. (\<forall>k. \<not> rests book i k) \<longrightarrow> idx' i = idx i)"
proof (induction inc book idx tr rule: match_book_induct [where b = b])
  case (Nil inc idx tr)
  then show ?case by simp
next
  case (Stop inc p lvl book idx tr)
  then show ?case by simp
next
  case (Erase inc p lvl book idx tr inc1 idx1 tr1)
  from Erase.prems(1) Erase.hyps(4) have r: "match_book b inc1 book idx1 tr1 = (inc', book', idx', tr')"
    by simp
  from Erase.IH [OF r] have IH:
    "\<And>i v. idx' i = Some v \<Longrightarrow> idx1 i = Some v"
    "\<And>i v k. idx' i = Some v \<Longrightarrow> rests book i k \<Longrightarrow> rests book' i k"
    "\<And>i. (\<forall>k. \<not> rests book i k) \<Longrightarrow> idx' i = idx1 i"
    by blast+
  note L1 = match_level_index_sub [OF Erase.hyps(3)]
  have L2: "i \<notin> id_o ` set lvl" if "idx1 i = Some v" for i v
    using match_level_index_keep [OF Erase.hyps(3) that] by auto
  note L3 = match_level_index_other [OF Erase.hyps(3)]
  show ?case
  proof (intro conjI allI impI)
    fix i v assume "idx' i = Some v"
    then show "idx i = Some v" by (intro L1 IH(1))
  next
    fix i v k assume a: "idx' i = Some v" "rests ((p, lvl) # book) i k"
    from L2 [OF IH(1) [OF a(1)]] a(2) have "rests book i k" by (simp add: rests_Cons)
    with a(1) show "rests book' i k" by (rule IH(2))
  next
    fix i assume "\<forall>k. \<not> rests ((p, lvl) # book) i k"
    then have "i \<notin> id_o ` set lvl" "\<forall>k. \<not> rests book i k"
      by (auto simp: rests_Cons)
    with IH(3) L3 show "idx' i = idx i" by simp
  qed
next
  case (Keep inc p lvl book idx tr inc1 lvl1 idx1 tr1)
  from Keep.prems(1) Keep.hyps(6) have eq: "book' = (p, lvl1) # book" "idx' = idx1"
    by simp_all
  note L = match_level_index_sub [OF Keep.hyps(3)] match_level_index_keep [OF Keep.hyps(3)]
    match_level_index_other [OF Keep.hyps(3)]
  show ?case
    unfolding eq
  proof (intro conjI allI impI)
    fix i v assume "idx1 i = Some v"
    then show "idx i = Some v" by (rule L(1))
  next
    fix i v k assume a: "idx1 i = Some v" "rests ((p, lvl) # book) i k"
    with L(2) [OF a(1)] show "rests ((p, lvl1) # book) i k" by (auto simp: rests_Cons)
  next
    fix i assume "\<forall>k. \<not> rests ((p, lvl) # book) i k"
    then have "i \<notin> id_o ` set lvl" by (auto simp: rests_Cons)
    then show "idx1 i = idx i" by (rule L(3))
  qed
qed

lemma match_book_trades:
  "match_book b inc book idx tr = (inc', book', idx', tr') \<Longrightarrow>
   \<exists>new. tr' = tr @ new \<and>
     (\<forall>t\<in>set new. \<exists>(p, lvl)\<in>set book. \<exists>r\<in>set lvl.
        crosses b p (price_o inc) \<and> t = emplace_trade b inc r p (qty_t t))"
proof (induction inc book idx tr rule: match_book_induct [where b = b])
  case (Nil inc idx tr)
  then show ?case by simp
next
  case (Stop inc p lvl book idx tr)
  then show ?case by simp
next
  case (Erase inc p lvl book idx tr inc1 idx1 tr1)
  from Erase.prems(1) Erase.hyps(4) have r: "match_book b inc1 book idx1 tr1 = (inc', book', idx', tr')"
    by simp
  from match_level_trades [OF Erase.hyps(3)] obtain new1 where new1:
    "tr1 = tr @ new1" "\<forall>t\<in>set new1. \<exists>r\<in>set lvl. t = emplace_trade b inc r p (qty_t t)"
    by auto
  from match_level_same_order [OF Erase.hyps(3)] have same:
    "id_o inc1 = id_o inc" "price_o inc1 = price_o inc" by simp_all
  from Erase.IH [OF r] obtain new2 where new2:
    "tr' = tr1 @ new2"
    "\<forall>t\<in>set new2. \<exists>(k, l)\<in>set book. \<exists>r\<in>set l.
        crosses b k (price_o inc1) \<and> t = emplace_trade b inc1 r k (qty_t t)"
    by auto
  have e: "emplace_trade b inc1 r k q = emplace_trade b inc r k q" for r k q
    by (simp add: emplace_trade_def same)
  show ?case
  proof (intro exI [of _ "new1 @ new2"] conjI ballI)
    show "tr' = tr @ new1 @ new2" using new1 new2 by simp
  next
    fix t assume "t \<in> set (new1 @ new2)"
    then consider "t \<in> set new1" | "t \<in> set new2" by auto
    then show "\<exists>(k, l)\<in>set ((p, lvl) # book). \<exists>r\<in>set l.
        crosses b k (price_o inc) \<and> t = emplace_trade b inc r k (qty_t t)"
    proof cases
      case 1
      with new1(2) Erase.hyps(2) show ?thesis by auto
    next
      case 2
      with new2(2) obtain k l x where "(k, l) \<in> set book" "x \<in> set l"
        "crosses b k (price_o inc1)" "t = emplace_trade b inc1 x k (qty_t t)"
        by blast
      then show ?thesis unfolding e same by auto
    qed
  qed
next
  case (Keep inc p lvl book idx tr inc1 lvl1 idx1 tr1)
  from Keep.prems(1) Keep.hyps(6) have eq: "tr' = tr1" by simp
  from match_level_trades [OF Keep.hyps(3)] Keep.hyps(2) show ?case
    unfolding eq by auto
qed

section \<open>Ladders and the state invariant\<close>

subsection \<open>Inserting into a ladder\<close>

lemma push_back_at_keys:
  assumes "\<And>a b. \<not> lt a b \<Longrightarrow> \<not> lt b a \<Longrightarrow> a = b"
  shows "fst ` set (push_back_at lt p x book) = insert p (fst ` set book)"
proof (induction book)
  case Nil
  show ?case by simp
next
  case (Cons a book)
  obtain k lvl where a: "a = (k, lvl)" by (cases a)
  have "k = p" if "\<not> lt k p" "\<not> lt p k"
    using that assms by blast
  with Cons show ?case unfolding a by auto
qed

lemma push_back_at_sorted_less:
  "sorted_wrt (<) (map fst book) \<Longrightarrow> sorted_wrt (<) (map fst (push_back_at (<) p x book))"
proof (induction book)
  case Nil
  then show ?case by simp
next
  case (Cons a book)
  obtain k lvl where a: "a = (k, lvl)" by (cases a)
  have keys: "fst ` set (push_back_at (<) p x book) = insert p (fst ` set book)"
    by (rule push_back_at_keys) auto
  from Cons keys show ?case unfolding a by (auto simp: image_iff) 
qed

lemma push_back_at_sorted_greater:
  "sorted_wrt (>) (map fst book) \<Longrightarrow> sorted_wrt (>) (map fst (push_back_at (>) p x book))"
proof (induction book)
  case Nil
  then show ?case by simp
next
  case (Cons a book)
  obtain k lvl where a: "a = (k, lvl)" by (cases a)
  have keys: "fst ` set (push_back_at (>) p x book) = insert p (fst ` set book)"
    by (rule push_back_at_keys) auto
  from Cons keys show ?case unfolding a by (auto simp: image_iff) 
qed

lemma push_back_at_levels_ok:
  assumes "\<And>a b. \<not> lt a b \<Longrightarrow> \<not> lt b a \<Longrightarrow> a = b"
  shows "levels_ok book \<Longrightarrow> 0 < qty_o x \<Longrightarrow> price_o x = p \<Longrightarrow>
    levels_ok (push_back_at lt p x book)"
proof (induction book)
  case Nil
  then show ?case by (simp add: levels_ok_Cons)
next
  case (Cons a book)
  obtain k lvl where a: "a = (k, lvl)" by (cases a)
  from Cons assms show ?case unfolding a by (auto simp: levels_ok_Cons)
qed

lemma push_back_at_rests:
  assumes "\<And>a b. \<not> lt a b \<Longrightarrow> \<not> lt b a \<Longrightarrow> a = b"
  shows "rests (push_back_at lt p x book) i k = (rests book i k \<or> (i = id_o x \<and> k = p))"
proof (induction book)
  case Nil
  then show ?case by (auto simp: rests_Cons)
next
  case (Cons a book)
  obtain k' lvl where a: "a = (k', lvl)" by (cases a)
  from Cons assms [of k' p] show ?case unfolding a by (auto simp: rests_Cons)
qed

lemma push_back_at_qty:
  "ladder_qty (push_back_at lt p x book) = ladder_qty book + qty_o x"
  by (induction lt p x book rule: push_back_at.induct) (auto simp: sum_qty_def)

subsection \<open>Erasing from a queue and from a ladder\<close>

lemma erase_id_None: "erase_id i lvl = None \<longleftrightarrow> i \<notin> id_o ` set lvl"
  by (induction lvl) (auto split: option.splits)

lemma erase_id_Some:
  "erase_id i lvl = Some lvl' \<Longrightarrow>
   set lvl' \<subseteq> set lvl \<and> id_o ` set lvl - {i} \<subseteq> id_o ` set lvl' \<and> length lvl = Suc (length lvl')"
  by (induction lvl arbitrary: lvl') (auto split: if_splits option.splits)

lemma set_level_keys [simp]: "map fst (set_level p l book) = map fst book"
  by (induction p l book rule: set_level.induct) auto

lemma erase_level_keys: "fst ` set (erase_level p book) \<subseteq> fst ` set book"
  by (induction p book rule: erase_level.induct) auto

lemma erase_level_sorted:
  "sorted_wrt lt (map fst book) \<Longrightarrow> sorted_wrt lt (map fst (erase_level p book))"
proof (induction book)
  case Nil
  then show ?case by simp
next
  case (Cons a book)
  obtain k lvl where a: "a = (k, lvl)" by (cases a)
  have "lt k j" if "j \<in> fst ` set (erase_level p book)" for j
  proof -
    from that erase_level_keys [of p book] have "j \<in> fst ` set book" by blast
    with Cons.prems show ?thesis unfolding a by auto
  qed
  with Cons show ?case unfolding a by auto
qed

lemma erase_level_levels_ok: "levels_ok book \<Longrightarrow> levels_ok (erase_level p book)"
  by (induction p book rule: erase_level.induct) (auto simp: levels_ok_Cons)

lemma set_level_levels_ok:
  "levels_ok book \<Longrightarrow> l \<noteq> [] \<Longrightarrow> \<forall>x\<in>set l. 0 < qty_o x \<and> price_o x = p \<Longrightarrow>
   levels_ok (set_level p l book)"
  by (induction p l book rule: set_level.induct) (auto simp: levels_ok_Cons)

lemma map_of_levels_ok:
  "levels_ok book \<Longrightarrow> map_of book p = Some lvl \<Longrightarrow> lvl \<noteq> [] \<and> (\<forall>x\<in>set lvl. 0 < qty_o x \<and> price_o x = p)"
  by (auto simp: levels_ok_def dest: map_of_SomeD)

subsection \<open>The invariant of the engine\<close>

text \<open>The empty book satisfies \<open>invar\<close>, and every call keeps it.\<close>

lemma invar_empty: "invar empty_book"
  by (simp add: invar_def empty_book_def side_def)

lemma invar_clear: "invar (clear s)"
  by (simp add: invar_def clear_def side_def)

lemma match_bid_cases:
  assumes "match inc True s = (inc', s')"
  obtains book' idx' tr' where
    "match_book True inc (asks s) (order_index s) (trades s) = (inc', book', idx', tr')"
    "s' = s\<lparr>asks := book', order_index := idx', trades := tr'\<rparr>"
  using assms by (auto simp: match_def split: prod.splits)

lemma match_ask_cases:
  assumes "match inc False s = (inc', s')"
  obtains book' idx' tr' where
    "match_book False inc (bids s) (order_index s) (trades s) = (inc', book', idx', tr')"
    "s' = s\<lparr>bids := book', order_index := idx', trades := tr'\<rparr>"
  using assms by (auto simp: match_def split: prod.splits)

lemma uncrossed_subset:
  "\<forall>b\<in>B. \<forall>a\<in>A. (b::real) < a \<Longrightarrow> B' \<subseteq> B \<Longrightarrow> A' \<subseteq> A \<Longrightarrow> \<forall>b\<in>B'. \<forall>a\<in>A'. b < a"
  by blast

lemma match_invar:
  assumes inv: "invar s" and q: "0 \<le> qty_o inc" and m: "match inc b s = (inc', s')"
  shows "invar s'"
    and "0 \<le> qty_o inc'"
    and "0 < qty_o inc' \<Longrightarrow> \<forall>k\<in>fst ` set (side (\<not> b) s'). \<not> crosses b k (price_o inc)"
    and "side b s' = side b s"
    and "fst ` set (side (\<not> b) s') \<subseteq> fst ` set (side (\<not> b) s)"
proof -
  have "invar s' \<and> 0 \<le> qty_o inc' \<and>
    (0 < qty_o inc' \<longrightarrow> (\<forall>k\<in>fst ` set (side (\<not> b) s'). \<not> crosses b k (price_o inc))) \<and>
    side b s' = side b s \<and> fst ` set (side (\<not> b) s') \<subseteq> fst ` set (side (\<not> b) s)"
  proof (cases b)
    case True
    from m True have "match inc True s = (inc', s')" by simp
    then obtain book' idx' tr' where
      r: "match_book True inc (asks s) (order_index s) (trades s) = (inc', book', idx', tr')"
      and s': "s' = s\<lparr>asks := book', order_index := idx', trades := tr'\<rparr>"
      by (rule match_bid_cases)
    from inv have ok: "levels_ok (asks s)" "sorted_wrt (<) (map fst (asks s))"
      by (simp_all add: invar_def)
    from match_book_ladder [OF r ok q] have L:
      "levels_ok book'" "sorted_wrt (<) (map fst book')" "fst ` set book' \<subseteq> fst ` set (asks s)"
      "0 \<le> qty_o inc'" by simp_all
    from ok(2) have os: "opposing_sorted True (asks s)" by (simp add: opposing_sorted_def)
    note stop = match_book_stops [OF r os]
    have idx: "rests (side c s') i p" if "order_index s' i = Some (p, c)" for i p c
    proof -
      from that have i': "idx' i = Some (p, c)" by (simp add: s')
      from match_book_index [OF r] i' have
        "order_index s i = Some (p, c)" "\<forall>k. rests (asks s) i k \<longrightarrow> rests book' i k"
        by blast+
      with inv have "rests (side c s) i p" "\<forall>k. rests (asks s) i k \<longrightarrow> rests book' i k"
        by (simp_all add: invar_def)
      then show ?thesis by (cases c) (simp_all add: side_def s')
    qed
    from inv have "\<forall>b\<in>fst ` set (bids s). \<forall>a\<in>fst ` set (asks s). b < a"
      by (simp add: invar_def)
    then have unc: "\<forall>b\<in>fst ` set (bids s'). \<forall>a\<in>fst ` set (asks s'). b < a"
      by (rule uncrossed_subset) (use L(3) in \<open>simp_all add: s'\<close>)
    from inv have own: "levels_ok (bids s')" "sorted_wrt (>) (map fst (bids s'))"
      by (simp_all add: invar_def s')
    from L(1,2) have opp: "levels_ok (asks s')" "sorted_wrt (<) (map fst (asks s'))"
      by (simp_all add: s')
    have "invar s'"
      unfolding invar_def using own opp unc idx by blast
    with L stop show ?thesis
      by (simp add: True side_def s')
  next
    case False
    from m False have "match inc False s = (inc', s')" by simp
    then obtain book' idx' tr' where
      r: "match_book False inc (bids s) (order_index s) (trades s) = (inc', book', idx', tr')"
      and s': "s' = s\<lparr>bids := book', order_index := idx', trades := tr'\<rparr>"
      by (rule match_ask_cases)
    from inv have ok: "levels_ok (bids s)" "sorted_wrt (>) (map fst (bids s))"
      by (simp_all add: invar_def)
    from match_book_ladder [OF r ok q] have L:
      "levels_ok book'" "sorted_wrt (>) (map fst book')" "fst ` set book' \<subseteq> fst ` set (bids s)"
      "0 \<le> qty_o inc'" by simp_all
    from ok(2) have os: "opposing_sorted False (bids s)" by (simp add: opposing_sorted_def)
    note stop = match_book_stops [OF r os]
    have idx: "rests (side c s') i p" if "order_index s' i = Some (p, c)" for i p c
    proof -
      from that have i': "idx' i = Some (p, c)" by (simp add: s')
      from match_book_index [OF r] i' have
        "order_index s i = Some (p, c)" "\<forall>k. rests (bids s) i k \<longrightarrow> rests book' i k"
        by blast+
      with inv have "rests (side c s) i p" "\<forall>k. rests (bids s) i k \<longrightarrow> rests book' i k"
        by (simp_all add: invar_def)
      then show ?thesis by (cases c) (simp_all add: side_def s')
    qed
    from inv have "\<forall>b\<in>fst ` set (bids s). \<forall>a\<in>fst ` set (asks s). b < a"
      by (simp add: invar_def)
    then have unc: "\<forall>b\<in>fst ` set (bids s'). \<forall>a\<in>fst ` set (asks s'). b < a"
      by (rule uncrossed_subset) (use L(3) in \<open>simp_all add: s'\<close>)
    from inv have own: "levels_ok (asks s')" "sorted_wrt (<) (map fst (asks s'))"
      by (simp_all add: invar_def s')
    from L(1,2) have opp: "levels_ok (bids s')" "sorted_wrt (>) (map fst (bids s'))"
      by (simp_all add: s')
    have "invar s'"
      unfolding invar_def using own opp unc idx by blast
    with L stop show ?thesis
      by (simp add: False side_def s')
  qed
  then show "invar s'"
    and "0 \<le> qty_o inc'"
    and "0 < qty_o inc' \<Longrightarrow> \<forall>k\<in>fst ` set (side (\<not> b) s'). \<not> crosses b k (price_o inc)"
    and "side b s' = side b s"
    and "fst ` set (side (\<not> b) s') \<subseteq> fst ` set (side (\<not> b) s)"
    by simp_all
qed

lemma match_same_order:
  assumes "match inc b s = (inc', s')"
  shows "id_o inc' = id_o inc" and "price_o inc' = price_o inc" and "next_id s' = next_id s"
proof -
  have "id_o inc' = id_o inc \<and> price_o inc' = price_o inc \<and> next_id s' = next_id s"
  proof (cases b)
    case True
    with assms have "match inc True s = (inc', s')" by simp
    then obtain book' idx' tr' where
      r: "match_book True inc (asks s) (order_index s) (trades s) = (inc', book', idx', tr')"
      and s': "s' = s\<lparr>asks := book', order_index := idx', trades := tr'\<rparr>"
      by (rule match_bid_cases)
    from match_book_same_order [OF r] show ?thesis by (simp add: s')
  next
    case False
    with assms have "match inc False s = (inc', s')" by simp
    then obtain book' idx' tr' where
      r: "match_book False inc (bids s) (order_index s) (trades s) = (inc', book', idx', tr')"
      and s': "s' = s\<lparr>bids := book', order_index := idx', trades := tr'\<rparr>"
      by (rule match_ask_cases)
    from match_book_same_order [OF r] show ?thesis by (simp add: s')
  qed
  then show "id_o inc' = id_o inc" and "price_o inc' = price_o inc" and "next_id s' = next_id s"
    by simp_all
qed

lemma add_limit_unfold:
  assumes "0 < q" and "match (incoming p q s) b (bump s) = (inc', s1)"
  shows "add_limit p q b s = (next_id s, if 0 < qty_o inc' then rest_order b inc' s1 else s1)"
proof -
  from match_same_order [OF assms(2)] have "id_o inc' = next_id s" "price_o inc' = p"
    by (simp_all add: incoming_def)
  with assms show ?thesis
    by (simp add: add_limit_def incoming_def bump_def rest_order_def Let_def)
qed

lemma add_market_unfold:
  assumes "0 < q" and "match (incoming (if b then 1000000000 else 0) q s) b (bump s) = (inc', s1)"
  shows "add_market q b s = (next_id s, s1)"
proof -
  from match_same_order [OF assms(2)] have "id_o inc' = next_id s"
    by (simp add: incoming_def)
  with assms show ?thesis
    by (simp add: add_market_def incoming_def bump_def Let_def)
qed

lemma invar_bump [simp]: "invar (bump s) = invar s"
  by (simp add: invar_def bump_def side_def)

lemma tri_less: "\<not> (a::real) < b \<Longrightarrow> \<not> b < a \<Longrightarrow> a = b"
  by simp

lemma tri_greater: "\<not> (a::real) > b \<Longrightarrow> \<not> b > a \<Longrightarrow> a = b"
  by simp

lemma rest_order_invar:
  assumes inv: "invar s" and q: "0 < qty_o x"
    and nc: "\<forall>k\<in>fst ` set (side (\<not> b) s). \<not> crosses b k (price_o x)"
  shows "invar (rest_order b x s)"
proof (cases b)
  case True
  let ?s' = "rest_order True x s"
  have s': "bids ?s' = push_back_at (>) (price_o x) x (bids s)" "asks ?s' = asks s"
    "order_index ?s' = (order_index s)(id_o x \<mapsto> (price_o x, True))"
    by (simp_all add: rest_order_def)
  from inv have i: "levels_ok (bids s)" "levels_ok (asks s)"
    "sorted_wrt (>) (map fst (bids s))" "sorted_wrt (<) (map fst (asks s))"
    "\<forall>b\<in>fst ` set (bids s). \<forall>a\<in>fst ` set (asks s). b < a"
    "\<And>i p c. order_index s i = Some (p, c) \<Longrightarrow> rests (side c s) i p"
    by (simp_all add: invar_def)
  have 1: "levels_ok (bids ?s')"
    unfolding s' by (rule push_back_at_levels_ok [where lt = "(>)", OF tri_greater i(1) q refl])
  have 2: "sorted_wrt (>) (map fst (bids ?s'))"
    unfolding s' using i(3) by (rule push_back_at_sorted_greater)
  have keys: "fst ` set (bids ?s') = insert (price_o x) (fst ` set (bids s))"
    unfolding s' by (rule push_back_at_keys [where lt = "(>)", OF tri_greater])
  from nc True have above: "\<forall>a\<in>fst ` set (asks s). price_o x < a"
    by (auto simp: side_def crosses_def)
  have 3: "\<forall>b\<in>fst ` set (bids ?s'). \<forall>a\<in>fst ` set (asks ?s'). b < a"
  proof (intro ballI)
    fix b a assume "b \<in> fst ` set (bids ?s')" and "a \<in> fst ` set (asks ?s')"
    then have b: "b = price_o x \<or> b \<in> fst ` set (bids s)" and a: "a \<in> fst ` set (asks s)"
      unfolding keys by (simp_all only: s' insert_iff)
    from b show "b < a"
    proof
      assume "b = price_o x"
      with above a show ?thesis by blast
    next
      assume "b \<in> fst ` set (bids s)"
      with i(5) a show ?thesis by blast
    qed
  qed
  have r: "rests (bids ?s') j k = (rests (bids s) j k \<or> (j = id_o x \<and> k = price_o x))" for j k
    unfolding s' by (rule push_back_at_rests [where lt = "(>)", OF tri_greater])
  have 4: "rests (side c ?s') j k" if "order_index ?s' j = Some (k, c)" for j k c
  proof (cases "j = id_o x")
    case True
    with that show ?thesis by (simp add: s'(3) side_def r)
  next
    case False
    with that have "order_index s j = Some (k, c)" by (simp add: s'(3))
    from i(6) [OF this] show ?thesis by (cases c) (simp_all add: side_def r s'(2))
  qed
  have "invar ?s'"
    unfolding invar_def
  proof (intro conjI allI impI)
    show "levels_ok (bids ?s')" by (rule 1)
    show "levels_ok (asks ?s')" using i(2) by (simp add: s'(2))
    show "sorted_wrt (>) (map fst (bids ?s'))" by (rule 2)
    show "sorted_wrt (<) (map fst (asks ?s'))" using i(4) by (simp add: s'(2))
    show "\<forall>b\<in>fst ` set (bids ?s'). \<forall>a\<in>fst ` set (asks ?s'). b < a" by (rule 3)
    fix j k c assume "order_index ?s' j = Some (k, c)"
    then show "rests (side c ?s') j k" by (rule 4)
  qed
  with True show ?thesis by simp
next
  case False
  let ?s' = "rest_order False x s"
  have s': "asks ?s' = push_back_at (<) (price_o x) x (asks s)" "bids ?s' = bids s"
    "order_index ?s' = (order_index s)(id_o x \<mapsto> (price_o x, False))"
    by (simp_all add: rest_order_def)
  from inv have i: "levels_ok (bids s)" "levels_ok (asks s)"
    "sorted_wrt (>) (map fst (bids s))" "sorted_wrt (<) (map fst (asks s))"
    "\<forall>b\<in>fst ` set (bids s). \<forall>a\<in>fst ` set (asks s). b < a"
    "\<And>i p c. order_index s i = Some (p, c) \<Longrightarrow> rests (side c s) i p"
    by (simp_all add: invar_def)
  have 1: "levels_ok (asks ?s')"
    unfolding s' by (rule push_back_at_levels_ok [where lt = "(<)", OF tri_less i(2) q refl])
  have 2: "sorted_wrt (<) (map fst (asks ?s'))"
    unfolding s' using i(4) by (rule push_back_at_sorted_less)
  have keys: "fst ` set (asks ?s') = insert (price_o x) (fst ` set (asks s))"
    unfolding s' by (rule push_back_at_keys [where lt = "(<)", OF tri_less])
  from nc False have below: "\<forall>a\<in>fst ` set (bids s). a < price_o x"
    by (auto simp: side_def crosses_def)
  have 3: "\<forall>b\<in>fst ` set (bids ?s'). \<forall>a\<in>fst ` set (asks ?s'). b < a"
  proof (intro ballI)
    fix b a assume "a \<in> fst ` set (asks ?s')" and "b \<in> fst ` set (bids ?s')"
    then have a: "a = price_o x \<or> a \<in> fst ` set (asks s)" and b: "b \<in> fst ` set (bids s)"
      unfolding keys by (simp_all only: s' insert_iff)
    from a show "b < a"
    proof
      assume "a = price_o x"
      with below b show ?thesis by blast
    next
      assume "a \<in> fst ` set (asks s)"
      with i(5) b show ?thesis by blast
    qed
  qed
  have r: "rests (asks ?s') j k = (rests (asks s) j k \<or> (j = id_o x \<and> k = price_o x))" for j k
    unfolding s' by (rule push_back_at_rests [where lt = "(<)", OF tri_less])
  have 4: "rests (side c ?s') j k" if "order_index ?s' j = Some (k, c)" for j k c
  proof (cases "j = id_o x")
    case True
    with that show ?thesis by (simp add: s'(3) side_def r)
  next
    case False
    with that have "order_index s j = Some (k, c)" by (simp add: s'(3))
    from i(6) [OF this] show ?thesis by (cases c) (simp_all add: side_def r s'(2))
  qed
  have "invar ?s'"
    unfolding invar_def
  proof (intro conjI allI impI)
    show "levels_ok (asks ?s')" by (rule 1)
    show "levels_ok (bids ?s')" using i(1) by (simp add: s'(2))
    show "sorted_wrt (<) (map fst (asks ?s'))" by (rule 2)
    show "sorted_wrt (>) (map fst (bids ?s'))" using i(3) by (simp add: s'(2))
    show "\<forall>b\<in>fst ` set (bids ?s'). \<forall>a\<in>fst ` set (asks ?s'). b < a" by (rule 3)
    fix j k c assume "order_index ?s' j = Some (k, c)"
    then show "rests (side c ?s') j k" by (rule 4)
  qed
  with False show ?thesis by simp
qed

lemma add_limit_invar:
  assumes "invar s"
  shows "invar (snd (add_limit p q b s))"
proof (cases "0 < q")
  case False
  then show ?thesis using assms by (simp add: add_limit_def)
next
  case True
  obtain inc' s1 where m: "match (incoming p q s) b (bump s) = (inc', s1)"
    by (cases "match (incoming p q s) b (bump s)")
  from assms have "invar (bump s)" by simp
  moreover from True have "0 \<le> qty_o (incoming p q s)" by (simp add: incoming_def)
  ultimately have M: "invar s1"
    "0 < qty_o inc' \<Longrightarrow> \<forall>k\<in>fst ` set (side (\<not> b) s1). \<not> crosses b k (price_o (incoming p q s))"
    using m by (rule match_invar)+
  from match_same_order [OF m] have "price_o inc' = price_o (incoming p q s)" by simp
  with M have "invar (rest_order b inc' s1)" if "0 < qty_o inc'"
    using that by (intro rest_order_invar) simp_all
  with M(1) show ?thesis
    by (simp add: add_limit_unfold [OF True m])
qed

lemma add_market_invar:
  assumes "invar s"
  shows "invar (snd (add_market q b s))"
proof (cases "0 < q")
  case False
  then show ?thesis using assms by (simp add: add_market_def)
next
  case True
  let ?inc = "incoming (if b then 1000000000 else 0) q s"
  obtain inc' s1 where m: "match ?inc b (bump s) = (inc', s1)"
    by (cases "match ?inc b (bump s)")
  from assms have "invar (bump s)" by simp
  moreover from True have "0 \<le> qty_o ?inc" by (simp add: incoming_def)
  ultimately have "invar s1"
    using m by (rule match_invar)
  then show ?thesis
    by (simp add: add_market_unfold [OF True m])
qed

subsection \<open>Cancellation keeps the invariant\<close>

lemma erase_id_ids:
  "erase_id i lvl = Some lvl' \<Longrightarrow> id_o ` set lvl \<subseteq> insert i (id_o ` set lvl')"
  by (induction lvl arbitrary: lvl') (auto split: if_splits option.splits)

lemma rests_set_level:
  "rests (set_level p l book) j k \<Longrightarrow> rests book j k \<or> (k = p \<and> j \<in> id_o ` set l)"
  by (induction p l book rule: set_level.induct) (auto simp: rests_Cons split: if_splits)

lemma rests_set_level_keep:
  "map_of book p = Some lvl \<Longrightarrow> rests book j k \<Longrightarrow>
   (j \<in> id_o ` set lvl \<longrightarrow> j \<in> id_o ` set l) \<Longrightarrow> rests (set_level p l book) j k"
  by (induction p l book rule: set_level.induct) (auto simp: rests_Cons split: if_splits)

lemma rests_erase_level: "rests (erase_level p book) j k \<Longrightarrow> rests book j k"
  by (induction p book rule: erase_level.induct) (auto simp: rests_Cons split: if_splits)

lemma rests_erase_level_keep:
  "map_of book p = Some lvl \<Longrightarrow> rests book j k \<Longrightarrow> j \<notin> id_o ` set lvl \<Longrightarrow>
   rests (erase_level p book) j k"
  by (induction p book rule: erase_level.induct) (auto simp: rests_Cons split: if_splits)

lemma cancel_in_ladder:
  assumes c: "cancel_in i p book = Some book'"
    and ok: "levels_ok book" and so: "sorted_wrt lt (map fst book)"
  shows "levels_ok book'" and "sorted_wrt lt (map fst book')"
    and "fst ` set book' \<subseteq> fst ` set book"
    and "rests book' j k \<Longrightarrow> rests book j k"
    and "j \<noteq> i \<Longrightarrow> rests book j k \<Longrightarrow> rests book' j k"
proof -
  from c obtain lvl lvl' where
    m: "map_of book p = Some lvl" and e: "erase_id i lvl = Some lvl'"
    and b': "book' = (if lvl' = [] then erase_level p book else set_level p lvl' book)"
    by (auto simp: cancel_in_def split: option.splits)
  from map_of_levels_ok [OF ok m] erase_id_Some [OF e]
  have l': "\<forall>x\<in>set lvl'. 0 < qty_o x \<and> price_o x = p" by blast
  from map_of_SomeD [OF m] have mem: "(p, lvl) \<in> set book" .
  show "levels_ok book'"
    by (simp add: b' erase_level_levels_ok [OF ok] set_level_levels_ok [OF ok _ l'])
  show "sorted_wrt lt (map fst book')"
    by (simp add: b' erase_level_sorted [OF so] so)
  show "fst ` set book' \<subseteq> fst ` set book"
  proof (cases "lvl' = []")
    case True
    then show ?thesis by (simp add: b' erase_level_keys)
  next
    case False
    have "set (map fst (set_level p lvl' book)) = set (map fst book)"
      by (simp only: set_level_keys)
    then have "fst ` set (set_level p lvl' book) = fst ` set book"
      by (simp only: set_map)
    with False show ?thesis by (simp add: b')
  qed
  show "rests book j k" if "rests book' j k"
  proof (cases "lvl' = []")
    case True
    with that show ?thesis by (simp add: b' rests_erase_level)
  next
    case False
    with that have "rests book j k \<or> (k = p \<and> j \<in> id_o ` set lvl')"
      by (simp add: b' rests_set_level)
    moreover from erase_id_Some [OF e] have "id_o ` set lvl' \<subseteq> id_o ` set lvl" by blast
    ultimately show ?thesis using mem by (auto simp: rests_def)
  qed
  show "rests book' j k" if "j \<noteq> i" "rests book j k"
  proof (cases "lvl' = []")
    case True
    with erase_id_ids [OF e] that(1) have "j \<notin> id_o ` set lvl" by auto
    from rests_erase_level_keep [OF m that(2) this] True show ?thesis by (simp add: b')
  next
    case False
    from erase_id_ids [OF e] that(1) have "j \<in> id_o ` set lvl \<longrightarrow> j \<in> id_o ` set lvl'"
      by auto
    from rests_set_level_keep [OF m that(2) this] False show ?thesis by (simp add: b')
  qed
qed

lemma sorted_wrt_greater_distinct: "sorted_wrt (>) (xs::real list) \<Longrightarrow> distinct xs"
  by (induction xs) auto

lemma sorted_wrt_less_distinct: "sorted_wrt (<) (xs::real list) \<Longrightarrow> distinct xs"
  by (induction xs) auto

lemma invar_side_distinct: "invar s \<Longrightarrow> distinct (map fst (side c s))"
  by (cases c) (simp_all add: invar_def side_def sorted_wrt_greater_distinct sorted_wrt_less_distinct)

text \<open>In a state that satisfies the invariant, the scan of \<open>cancel\<close> finds every indexed order.\<close>

lemma cancel_in_finds:
  assumes "invar s" and "order_index s i = Some (p, c)"
  shows "cancel_in i p (side c s) \<noteq> None"
proof -
  from assms have "rests (side c s) i p" by (simp add: invar_def)
  then obtain lvl where l: "(p, lvl) \<in> set (side c s)" "i \<in> id_o ` set lvl"
    by (auto simp: rests_def)
  from invar_side_distinct [OF assms(1)] l(1) have "map_of (side c s) p = Some lvl"
    by (rule map_of_is_SomeI)
  moreover from l(2) have "erase_id i lvl \<noteq> None" by (simp add: erase_id_None)
  ultimately show ?thesis by (auto simp: cancel_in_def)
qed

lemma cancel_unfold_bid:
  assumes "order_index s i = Some (p, True)" and "cancel_in i p (bids s) = Some book'"
  shows "cancel i s = (True, s\<lparr>bids := book', order_index := (order_index s)(i := None)\<rparr>)"
  using assms by (simp add: cancel_def)

lemma cancel_unfold_ask:
  assumes "order_index s i = Some (p, False)" and "cancel_in i p (asks s) = Some book'"
  shows "cancel i s = (True, s\<lparr>asks := book', order_index := (order_index s)(i := None)\<rparr>)"
  using assms by (simp add: cancel_def)

lemma cancel_invar:
  assumes inv: "invar s"
  shows "invar (snd (cancel i s))"
proof (cases "order_index s i")
  case None
  with inv show ?thesis by (simp add: cancel_def)
next
  case (Some a)
  obtain p c where a: "a = (p, c)" by (cases a)
  from Some a have ix: "order_index s i = Some (p, c)" by simp
  from cancel_in_finds [OF inv ix] obtain book' where
    ci: "cancel_in i p (side c s) = Some book'" by auto
  from inv have i: "levels_ok (bids s)" "levels_ok (asks s)"
    "sorted_wrt (>) (map fst (bids s))" "sorted_wrt (<) (map fst (asks s))"
    "\<forall>b\<in>fst ` set (bids s). \<forall>a\<in>fst ` set (asks s). b < a"
    "\<And>i p c. order_index s i = Some (p, c) \<Longrightarrow> rests (side c s) i p"
    by (simp_all add: invar_def)
  show ?thesis
  proof (cases c)
    case True
    from ci True have ci': "cancel_in i p (bids s) = Some book'" by (simp add: side_def)
    let ?s' = "s\<lparr>bids := book', order_index := (order_index s)(i := None)\<rparr>"
    from ix True ci' have eq: "cancel i s = (True, ?s')" by (simp add: cancel_unfold_bid)
    note L = cancel_in_ladder [OF ci' i(1) i(3)]
    have "invar ?s'"
      unfolding invar_def
    proof (intro conjI allI impI)
      show "levels_ok (bids ?s')" using L(1) by simp
      show "levels_ok (asks ?s')" using i(2) by simp
      show "sorted_wrt (>) (map fst (bids ?s'))" using L(2) by simp
      show "sorted_wrt (<) (map fst (asks ?s'))" using i(4) by simp
      show "\<forall>b\<in>fst ` set (bids ?s'). \<forall>a\<in>fst ` set (asks ?s'). b < a"
        using i(5) by (rule uncrossed_subset) (use L(3) in simp_all)
      fix j k d assume "order_index ?s' j = Some (k, d)"
      then have j: "j \<noteq> i" "order_index s j = Some (k, d)" by (auto split: if_splits)
      from i(6) [OF j(2)] L(5) [OF j(1)] show "rests (side d ?s') j k"
        by (cases d) (simp_all add: side_def)
    qed
    with eq show ?thesis by simp
  next
    case False
    from ci False have ci': "cancel_in i p (asks s) = Some book'" by (simp add: side_def)
    let ?s' = "s\<lparr>asks := book', order_index := (order_index s)(i := None)\<rparr>"
    from ix False ci' have eq: "cancel i s = (True, ?s')" by (simp add: cancel_unfold_ask)
    note L = cancel_in_ladder [OF ci' i(2) i(4)]
    have "invar ?s'"
      unfolding invar_def
    proof (intro conjI allI impI)
      show "levels_ok (asks ?s')" using L(1) by simp
      show "levels_ok (bids ?s')" using i(1) by simp
      show "sorted_wrt (<) (map fst (asks ?s'))" using L(2) by simp
      show "sorted_wrt (>) (map fst (bids ?s'))" using i(3) by simp
      show "\<forall>b\<in>fst ` set (bids ?s'). \<forall>a\<in>fst ` set (asks ?s'). b < a"
        using i(5) by (rule uncrossed_subset) (use L(3) in simp_all)
      fix j k d assume "order_index ?s' j = Some (k, d)"
      then have j: "j \<noteq> i" "order_index s j = Some (k, d)" by (auto split: if_splits)
      from i(6) [OF j(2)] L(5) [OF j(1)] show "rests (side d ?s') j k"
        by (cases d) (simp_all add: side_def)
    qed
    with eq show ?thesis by simp
  qed
qed

lemma step_invar: "invar s \<Longrightarrow> invar (step c s)"
  by (cases c) (simp_all add: add_limit_invar add_market_invar cancel_invar invar_clear)

lemma run_invar: "invar s \<Longrightarrow> invar (run cs s)"
  by (induction cs arbitrary: s) (simp_all add: step_invar)

lemma reachable_invar: "reachable s \<Longrightarrow> invar s"
  by (auto simp: reachable_def intro: run_invar invar_empty)

section \<open>Rejected quantities\<close>

text \<open>
  Claim C7. For every price, side and quantity \<open>q \<le> 0\<close>, \<open>add_limit\<close> and
  \<open>add_market\<close> return the invalid id 0 and the engine state is the one before the call:
  ladders, index, trade log and \<open>next_id\<close> are unchanged.
\<close>

theorem invalid_quantity_rejected:
  assumes "q \<le> 0"
  shows "add_limit price q is_bid s = (0, s) \<and> add_market q is_bid s = (0, s)"
  using assms by (simp add: add_limit_def add_market_def)

theorem invalid_quantity_rejected_witness:
  "add_limit 100 (- 10) True empty_book = (0, empty_book) \<and>
   add_market (- 10) True empty_book = (0, empty_book)"
  by (rule invalid_quantity_rejected) simp

section \<open>Concrete runs\<close>

text \<open>The equations that evaluate the engine on a concrete sequence of calls.\<close>

lemmas book_eval =
  add_limit_def add_market_def cancel_def cancel_in_def match_def crosses_def Let_def
  empty_book_def match_level_Cons match_book.simps(2) emplace_trade_def clear_def

section \<open>No crossed book\<close>

text \<open>
  Claim C2. In every state reachable from the empty book by \<open>add_limit\<close>, \<open>add_market\<close>,
  \<open>cancel\<close> and \<open>clear\<close>, when both ladders are non-empty the best bid is strictly
  below the best ask; the best bid is the highest bid price and the best ask the lowest
  ask price.
\<close>

theorem no_crossed_book:
  assumes "reachable s" and "best_bid s = Some b" and "best_ask s = Some a"
  shows "b < a \<and> (\<forall>k\<in>fst ` set (bids s). k \<le> b) \<and> (\<forall>k\<in>fst ` set (asks s). a \<le> k)"
proof -
  from assms(1) have inv: "invar s" by (rule reachable_invar)
  from assms(2) obtain lb bs where bs: "bids s = (b, lb) # bs"
    by (auto simp: best_bid_def split: list.splits)
  from assms(3) obtain la as where as: "asks s = (a, la) # as"
    by (auto simp: best_ask_def split: list.splits)
  from inv have "\<forall>x\<in>fst ` set (bids s). \<forall>y\<in>fst ` set (asks s). x < y"
    by (simp add: invar_def)
  then have "b < a" unfolding bs as by simp
  moreover from inv have "sorted_wrt (>) (map fst (bids s))" by (simp add: invar_def)
  then have "\<forall>k\<in>fst ` set (bids s). k \<le> b" unfolding bs by auto
  moreover from inv have "sorted_wrt (<) (map fst (asks s))" by (simp add: invar_def)
  then have "\<forall>k\<in>fst ` set (asks s). a \<le> k" unfolding as by auto
  ultimately show ?thesis by simp
qed

theorem no_crossed_book_witness:
  "reachable two_sided \<and> best_bid two_sided = Some 100 \<and> best_ask two_sided = Some 101 \<and>
   (100::real) < 101"
proof -
  have r: "reachable two_sided"
    unfolding reachable_def two_sided_def by (rule exI) (rule refl)
  have b: "best_bid two_sided = Some 100"
    by (simp add: two_sided_def best_bid_def book_eval)
  have a: "best_ask two_sided = Some 101"
    by (simp add: two_sided_def best_ask_def book_eval)
  from no_crossed_book [OF r b a] have "(100::real) < 101" by (rule conjunct1)
  with r b a show ?thesis by simp
qed

section \<open>Trade records\<close>

lemma match_trades:
  assumes inv: "invar s" and m: "match inc is_bid s = (inc', s')"
  shows "\<exists>new. trades s' = trades s @ new \<and>
    (\<forall>t\<in>set new. trade_against s is_bid (id_o inc) t \<and> crosses is_bid (price_t t) (price_o inc))"
proof -
  have *: "\<exists>new. tr' = trades s @ new \<and>
    (\<forall>t\<in>set new. trade_against s is_bid (id_o inc) t \<and> crosses is_bid (price_t t) (price_o inc))"
    if r: "match_book is_bid inc (side (\<not> is_bid) s) (order_index s) (trades s) = (inc', book', idx', tr')"
    for book' idx' tr'
  proof -
    from inv have ok: "levels_ok (side (\<not> is_bid) s)"
      by (simp add: invar_def side_def)
    from match_book_trades [OF r] obtain new where new: "tr' = trades s @ new"
      "\<forall>t\<in>set new. \<exists>(p, lvl)\<in>set (side (\<not> is_bid) s). \<exists>r\<in>set lvl.
         crosses is_bid p (price_o inc) \<and> t = emplace_trade is_bid inc r p (qty_t t)"
      by blast
    have "trade_against s is_bid (id_o inc) t \<and> crosses is_bid (price_t t) (price_o inc)"
      if "t \<in> set new" for t
    proof -
      from new(2) that obtain p lvl r where
        x: "(p, lvl) \<in> set (side (\<not> is_bid) s)" "r \<in> set lvl" "crosses is_bid p (price_o inc)"
          "t = emplace_trade is_bid inc r p (qty_t t)"
        by blast
      from ok x(1,2) have "price_o r = p" by (auto simp: levels_ok_def)
      moreover from x(4) have "price_t t = p"
        "buyer_id t = (if is_bid then id_o inc else id_o r)"
        "seller_id t = (if is_bid then id_o r else id_o inc)"
        by (metis emplace_trade_sel(1), metis emplace_trade_sel(3), metis emplace_trade_sel(4))
      ultimately show ?thesis
        using x(1,2,3) unfolding trade_against_def
        by (intro conjI exI [of _ p] exI [of _ lvl] exI [of _ r]) simp_all
    qed
    with new(1) show ?thesis by blast
  qed
  show ?thesis
  proof (cases is_bid)
    case True
    with m have "match inc True s = (inc', s')" by simp
    then obtain book' idx' tr' where
      "match_book True inc (asks s) (order_index s) (trades s) = (inc', book', idx', tr')"
      "s' = s\<lparr>asks := book', order_index := idx', trades := tr'\<rparr>"
      by (rule match_bid_cases)
    with * [of book' idx' tr'] True show ?thesis by (simp add: side_def)
  next
    case False
    with m have "match inc False s = (inc', s')" by simp
    then obtain book' idx' tr' where
      "match_book False inc (bids s) (order_index s) (trades s) = (inc', book', idx', tr')"
      "s' = s\<lparr>bids := book', order_index := idx', trades := tr'\<rparr>"
      by (rule match_ask_cases)
    with * [of book' idx' tr'] False show ?thesis by (simp add: side_def)
  qed
qed

lemma trade_against_bump [simp]: "trade_against (bump s) is_bid i t = trade_against s is_bid i t"
  by (simp add: trade_against_def bump_def side_def)

lemma trades_bump [simp]: "trades (bump s) = trades s"
  by (simp add: bump_def)

lemma trades_rest_order [simp]: "trades (rest_order b x s) = trades s"
  by (simp add: rest_order_def)

text \<open>
  Claim C4. Every trade that a submission appends to the trade log is against an order
  resting on the opposite side, at the price of that order's level (which is the resting
  order's own price); for a limit order that price crosses the incoming limit, so it is
  never worse than the incoming order's own price. The buyer is the incoming order for an
  incoming bid and the resting order for an incoming ask, and the seller the other one.
\<close>

theorem trade_record_correct:
  assumes "reachable s"
  shows "(\<exists>new. trades (snd (add_limit price q is_bid s)) = trades s @ new \<and>
            (\<forall>t\<in>set new. trade_against s is_bid (next_id s) t \<and> crosses is_bid (price_t t) price)) \<and>
         (\<exists>new. trades (snd (add_market q is_bid s)) = trades s @ new \<and>
            (\<forall>t\<in>set new. trade_against s is_bid (next_id s) t))"
proof (cases "0 < q")
  case False
  then show ?thesis by (simp add: add_limit_def add_market_def)
next
  case True
  from assms have inv: "invar (bump s)" by (simp add: reachable_invar)
  obtain inc1 s1 where m1: "match (incoming price q s) is_bid (bump s) = (inc1, s1)"
    by (cases "match (incoming price q s) is_bid (bump s)")
  let ?mkt = "incoming (if is_bid then 1000000000 else 0) q s"
  obtain inc2 s2 where m2: "match ?mkt is_bid (bump s) = (inc2, s2)"
    by (cases "match ?mkt is_bid (bump s)")
  have l: "trades (snd (add_limit price q is_bid s)) = trades s1"
    by (simp add: add_limit_unfold [OF True m1])
  have k: "trades (snd (add_market q is_bid s)) = trades s2"
    by (simp add: add_market_unfold [OF True m2])
  from match_trades [OF inv m1] match_trades [OF inv m2] show ?thesis
    unfolding l k by (simp add: incoming_def) blast
qed

theorem trade_record_correct_witness:
  "reachable one_ask \<and>
   trades (snd (add_limit 101 30 True one_ask)) =
     [\<lparr>buyer_id = 2, seller_id = 1, price_t = 100.5, qty_t = 30\<rparr>] \<and>
   trade_against one_ask True 2 \<lparr>buyer_id = 2, seller_id = 1, price_t = 100.5, qty_t = 30\<rparr>"
proof -
  let ?t = "\<lparr>buyer_id = 2, seller_id = 1, price_t = 100.5, qty_t = 30\<rparr>"
  have r: "reachable one_ask"
    unfolding reachable_def one_ask_def by (rule exI) (rule refl)
  have e: "trades (snd (add_limit 101 30 True one_ask)) = [?t]" "trades one_ask = []"
    "next_id one_ask = 2"
    by (simp_all add: one_ask_def book_eval)
  from trade_record_correct [OF r, of 101 30 True] have "trade_against one_ask True 2 ?t"
    unfolding e by auto
  with r e(1) show ?thesis by simp
qed

section \<open>Conservation of quantity\<close>

lemma match_conserves:
  assumes "match inc b s = (inc', s')"
  shows "resting_qty s - resting_qty s' = qty_o inc - qty_o inc'"
    and "traded_qty s' - traded_qty s = qty_o inc - qty_o inc'"
proof -
  have "resting_qty s - resting_qty s' = qty_o inc - qty_o inc' \<and>
    traded_qty s' - traded_qty s = qty_o inc - qty_o inc'"
  proof (cases b)
    case True
    with assms have "match inc True s = (inc', s')" by simp
    then obtain book' idx' tr' where
      r: "match_book True inc (asks s) (order_index s) (trades s) = (inc', book', idx', tr')"
      and s': "s' = s\<lparr>asks := book', order_index := idx', trades := tr'\<rparr>"
      by (rule match_bid_cases)
    from match_book_conserves [OF r] show ?thesis
      by (simp add: s' resting_qty_def traded_qty_def)
  next
    case False
    with assms have "match inc False s = (inc', s')" by simp
    then obtain book' idx' tr' where
      r: "match_book False inc (bids s) (order_index s) (trades s) = (inc', book', idx', tr')"
      and s': "s' = s\<lparr>bids := book', order_index := idx', trades := tr'\<rparr>"
      by (rule match_ask_cases)
    from match_book_conserves [OF r] show ?thesis
      by (simp add: s' resting_qty_def traded_qty_def)
  qed
  then show "resting_qty s - resting_qty s' = qty_o inc - qty_o inc'"
    and "traded_qty s' - traded_qty s = qty_o inc - qty_o inc'"
    by simp_all
qed

lemma resting_qty_bump [simp]: "resting_qty (bump s) = resting_qty s"
  by (simp add: resting_qty_def bump_def)

lemma traded_qty_bump [simp]: "traded_qty (bump s) = traded_qty s"
  by (simp add: traded_qty_def bump_def)

lemma resting_qty_rest_order: "resting_qty (rest_order b x s) = resting_qty s + qty_o x"
  by (cases b) (simp_all add: resting_qty_def rest_order_def push_back_at_qty)

lemma traded_qty_rest_order [simp]: "traded_qty (rest_order b x s) = traded_qty s"
  by (simp add: traded_qty_def rest_order_def)

lemma add_limit_conserves:
  assumes "invar s" and "0 < q"
  shows "resting_qty (snd (add_limit p q b s)) + 2 * traded_qty (snd (add_limit p q b s)) =
    resting_qty s + 2 * traded_qty s + q"
proof -
  obtain inc' s1 where m: "match (incoming p q s) b (bump s) = (inc', s1)"
    by (cases "match (incoming p q s) b (bump s)")
  from assms have "invar (bump s)" "0 \<le> qty_o (incoming p q s)"
    by (simp_all add: incoming_def)
  from match_invar(2) [OF this m] have r: "0 \<le> qty_o inc'" .
  from match_conserves [OF m] have
    "resting_qty s - resting_qty s1 = q - qty_o inc'" "traded_qty s1 - traded_qty s = q - qty_o inc'"
    by (simp_all add: incoming_def)
  with r show ?thesis
    by (simp add: add_limit_unfold [OF assms(2) m] resting_qty_rest_order)
qed

lemma add_market_conserves:
  assumes "0 < q"
  shows "resting_qty (snd (add_market q b s)) + 2 * traded_qty (snd (add_market q b s)) +
      market_residual q b s =
    resting_qty s + 2 * traded_qty s + q"
proof -
  let ?inc = "incoming (market_price b) q s"
  obtain inc' s1 where m: "match ?inc b (bump s) = (inc', s1)"
    by (cases "match ?inc b (bump s)")
  then have m': "match (incoming (if b then 1000000000 else 0) q s) b (bump s) = (inc', s1)"
    by (simp add: market_price_def)
  from match_conserves [OF m] have
    "resting_qty s - resting_qty s1 = q - qty_o inc'" "traded_qty s1 - traded_qty s = q - qty_o inc'"
    by (simp_all add: incoming_def)
  then show ?thesis
    by (simp add: add_market_unfold [OF assms m'] market_residual_def m)
qed

lemma erase_id_qty:
  "erase_id i lvl = Some lvl' \<Longrightarrow>
   \<exists>x. find (\<lambda>x. id_o x = i) lvl = Some x \<and> sum_qty lvl = sum_qty lvl' + qty_o x"
  by (induction lvl arbitrary: lvl') (auto simp: sum_qty_def split: if_splits option.splits)

lemma ladder_qty_set_level:
  "map_of book p = Some lvl \<Longrightarrow>
   ladder_qty (set_level p l book) = ladder_qty book - sum_qty lvl + sum_qty l"
  by (induction p l book rule: set_level.induct) (auto split: if_splits)

lemma ladder_qty_erase_level:
  "map_of book p = Some lvl \<Longrightarrow> ladder_qty (erase_level p book) = ladder_qty book - sum_qty lvl"
  by (induction p book rule: erase_level.induct) (auto split: if_splits)

lemma cancel_in_qty:
  assumes "cancel_in i p book = Some book'"
  shows "\<exists>lvl x. map_of book p = Some lvl \<and> find (\<lambda>x. id_o x = i) lvl = Some x \<and>
    ladder_qty book = ladder_qty book' + qty_o x"
proof -
  from assms obtain lvl lvl' where
    m: "map_of book p = Some lvl" and e: "erase_id i lvl = Some lvl'"
    and b': "book' = (if lvl' = [] then erase_level p book else set_level p lvl' book)"
    by (auto simp: cancel_in_def split: option.splits)
  from erase_id_qty [OF e] obtain x where
    x: "find (\<lambda>x. id_o x = i) lvl = Some x" "sum_qty lvl = sum_qty lvl' + qty_o x" by blast
  have "ladder_qty book = ladder_qty book' + qty_o x"
  proof (cases "lvl' = []")
    case True
    with x(2) ladder_qty_erase_level [OF m] show ?thesis by (simp add: b' sum_qty_def)
  next
    case False
    with x(2) ladder_qty_set_level [OF m, of lvl'] show ?thesis by (simp add: b')
  qed
  with m x(1) show ?thesis by blast
qed

lemma cancel_conserves:
  "resting_qty (snd (cancel i s)) + (if fst (cancel i s) then cancelled_qty i s else 0) = resting_qty s \<and>
   traded_qty (snd (cancel i s)) = traded_qty s"
proof (cases "order_index s i")
  case None
  then show ?thesis by (simp add: cancel_def)
next
  case (Some a)
  obtain p c where a: "a = (p, c)" by (cases a)
  from Some a have ix: "order_index s i = Some (p, c)" by simp
  show ?thesis
  proof (cases "cancel_in i p (side c s)")
    case None
    with ix show ?thesis
      by (cases c) (simp_all add: cancel_def side_def resting_qty_def traded_qty_def)
  next
    case (Some book')
    from cancel_in_qty [OF Some] obtain lvl x where
      q: "map_of (side c s) p = Some lvl" "find (\<lambda>x. id_o x = i) lvl = Some x"
        "ladder_qty (side c s) = ladder_qty book' + qty_o x" by blast
    from ix q(1,2) have cq: "cancelled_qty i s = qty_o x" by (simp add: cancelled_qty_def)
    from ix Some q(3) cq show ?thesis
      by (cases c) (simp_all add: cancel_def side_def resting_qty_def traded_qty_def)
  qed
qed

lemma step_balance:
  assumes "invar s" and "c \<noteq> Clear"
  shows "balance (step c s) (account c s l) = balance s l"
proof (cases c)
  case (Add_limit p q b)
  show ?thesis
  proof (cases "0 < q")
    case True
    from add_limit_conserves [OF assms(1) True, of p b] True show ?thesis
      by (simp add: Add_limit balance_def)
  next
    case False
    then show ?thesis by (simp add: Add_limit add_limit_def)
  qed
next
  case (Add_market q b)
  show ?thesis
  proof (cases "0 < q")
    case True
    from add_market_conserves [OF True, of b s] True show ?thesis
      by (simp add: Add_market balance_def)
  next
    case False
    then show ?thesis by (simp add: Add_market add_market_def)
  qed
next
  case (Cancel i)
  from cancel_conserves [of i s] show ?thesis
    by (cases "fst (cancel i s)") (simp_all add: Cancel balance_def)
next
  case Clear
  with assms show ?thesis by simp
qed

lemma run_balance:
  "invar s \<Longrightarrow> Clear \<notin> set cs \<Longrightarrow> balance (run cs s) (audit cs s l) = balance s l"
proof (induction cs arbitrary: s l)
  case Nil
  then show ?case by simp
next
  case (Cons c cs)
  from Cons.prems have "invar (step c s)" "Clear \<notin> set cs" "c \<noteq> Clear"
    by (auto simp: step_invar)
  with Cons.IH [of "step c s" "account c s l"] step_balance [OF Cons.prems(1), of c l]
  show ?case by simp
qed

text \<open>
  Claim C1, as amended. After any finite sequence of \<open>add_limit\<close>, \<open>add_market\<close> and
  \<open>cancel\<close> calls on the empty book, the sum of the quantities of the accepted
  submissions equals the sum of the resting quantities, plus twice the sum of the
  quantities of the recorded trades, plus the market-order residual that was dropped,
  plus the quantity removed by successful cancels. A trade takes its quantity from
  two orders, the incoming one and the resting one, and is recorded once.
\<close>

theorem conservation_of_quantity:
  assumes "Clear \<notin> set cs"
  shows "submitted (audit cs empty_book no_ledger) =
    resting_qty (run cs empty_book) + 2 * traded_qty (run cs empty_book) +
    dropped (audit cs empty_book no_ledger) + cancelled (audit cs empty_book no_ledger)"
proof -
  have "balance empty_book no_ledger = 0"
    by (simp add: balance_def no_ledger_def resting_qty_def traded_qty_def empty_book_def sum_trades_def)
  with run_balance [OF invar_empty assms, of no_ledger] show ?thesis
    by (simp add: balance_def)
qed

lemmas ledger_eval =
  no_ledger_def market_residual_def market_price_def cancelled_qty_def incoming_def bump_def
  side_def resting_qty_def traded_qty_def sum_trades_def sum_qty_def

text \<open>
  The claim as stated counts each trade once. On the first scenario of the test suite
  (an ask of 50 at 100.5, then a bid of 30 at 100.5) 80 units were submitted, 20 rest
  and one trade of 30 is recorded.
\<close>

theorem conservation_counterexample:
  "submitted (audit basic_cross empty_book no_ledger) = 80 \<and>
   resting_qty (run basic_cross empty_book) + traded_qty (run basic_cross empty_book) +
   dropped (audit basic_cross empty_book no_ledger) +
   cancelled (audit basic_cross empty_book no_ledger) = 50"
  by (simp add: basic_cross_def book_eval ledger_eval)

theorem conservation_of_quantity_witness:
  "Clear \<notin> set mixed_run \<and>
   submitted (audit mixed_run empty_book no_ledger) = 310 \<and>
   resting_qty (run mixed_run empty_book) = 0 \<and>
   traded_qty (run mixed_run empty_book) = 120 \<and>
   dropped (audit mixed_run empty_book no_ledger) = 50 \<and>
   cancelled (audit mixed_run empty_book no_ledger) = 20"
proof -
  have c: "Clear \<notin> set mixed_run" by (simp add: mixed_run_def)
  have v: "resting_qty (run mixed_run empty_book) = 0"
    "traded_qty (run mixed_run empty_book) = 120"
    "dropped (audit mixed_run empty_book no_ledger) = 50"
    "cancelled (audit mixed_run empty_book no_ledger) = 20"
    by (simp_all add: mixed_run_def book_eval ledger_eval)
  from conservation_of_quantity [OF c] have "submitted (audit mixed_run empty_book no_ledger) = 310"
    unfolding v by simp
  with c v show ?thesis by simp
qed

section \<open>Matching fills a queue from the front\<close>

lemma resting_id_emplace [simp]: "resting_id b (emplace_trade b inc r p q) = id_o r"
  by (simp add: resting_id_def)

lemma fifo_fill_untouched [simp]: "fifo_fill is_bid lvl lvl []"
  unfolding fifo_fill_def by (intro exI [of _ 0]) simp

lemma match_level_fifo_raw:
  assumes "match_level is_bid inc p lvl idx tr = (inc', lvl', idx', tr')"
  shows "\<exists>k new. tr' = tr @ new \<and> k \<le> length lvl \<and>
     map (resting_id is_bid) new = take (length new) (map id_o lvl) \<and>
     take k (map qty_t new) = take k (map qty_o lvl) \<and>
     ((length new = k \<and> lvl' = drop k lvl) \<or>
      (length new = Suc k \<and> k < length lvl \<and>
       0 < qty_t (last new) \<and> qty_t (last new) < qty_o (lvl ! k) \<and>
       lvl' = (lvl ! k)\<lparr>qty_o := qty_o (lvl ! k) - qty_t (last new)\<rparr> # drop (Suc k) lvl))"
  using assms
proof (induction lvl arbitrary: inc idx tr)
  case Nil
  then show ?case by simp
next
  case (Cons r rest)
  consider (idle) "qty_o inc \<le> 0"
    | (fill) "0 < qty_o inc" "qty_o r \<le> qty_o inc"
    | (part) "0 < qty_o inc" "qty_o inc < qty_o r"
    by linarith
  then show ?case
  proof cases
    case idle
    with Cons.prems have "tr' = tr" "lvl' = r # rest"
      by (simp_all add: match_level_Cons)
    then show ?thesis
      by (intro exI [of _ 0] exI [of _ "[]"]) simp
  next
    case fill
    let ?t = "emplace_trade is_bid inc r p (qty_o r)"
    from Cons.prems fill have
      "match_level is_bid (inc\<lparr>qty_o := qty_o inc - qty_o r\<rparr>) p rest (idx(id_o r := None))
         (tr @ [?t]) = (inc', lvl', idx', tr')"
      by (simp add: match_level_Cons)
    from Cons.IH [OF this] obtain k new where IH:
      "tr' = (tr @ [?t]) @ new" "k \<le> length rest"
      "map (resting_id is_bid) new = take (length new) (map id_o rest)"
      "take k (map qty_t new) = take k (map qty_o rest)"
      "(length new = k \<and> lvl' = drop k rest) \<or>
       (length new = Suc k \<and> k < length rest \<and>
        0 < qty_t (last new) \<and> qty_t (last new) < qty_o (rest ! k) \<and>
        lvl' = (rest ! k)\<lparr>qty_o := qty_o (rest ! k) - qty_t (last new)\<rparr> # drop (Suc k) rest)"
      by blast
    show ?thesis
    proof (intro exI [of _ "Suc k"] exI [of _ "?t # new"] conjI)
      show "tr' = tr @ ?t # new" using IH(1) by simp
      show "Suc k \<le> length (r # rest)" using IH(2) by simp
      show "map (resting_id is_bid) (?t # new) = take (length (?t # new)) (map id_o (r # rest))"
        using IH(3) by simp
      show "take (Suc k) (map qty_t (?t # new)) = take (Suc k) (map qty_o (r # rest))"
        using IH(4) by simp
      from IH(5) show "(length (?t # new) = Suc k \<and> lvl' = drop (Suc k) (r # rest)) \<or>
        (length (?t # new) = Suc (Suc k) \<and> Suc k < length (r # rest) \<and>
         0 < qty_t (last (?t # new)) \<and> qty_t (last (?t # new)) < qty_o ((r # rest) ! Suc k) \<and>
         lvl' = ((r # rest) ! Suc k)\<lparr>qty_o := qty_o ((r # rest) ! Suc k) - qty_t (last (?t # new))\<rparr>
                # drop (Suc (Suc k)) (r # rest))"
      proof
        assume "length new = k \<and> lvl' = drop k rest"
        then show ?thesis by simp
      next
        assume a: "length new = Suc k \<and> k < length rest \<and>
          0 < qty_t (last new) \<and> qty_t (last new) < qty_o (rest ! k) \<and>
          lvl' = (rest ! k)\<lparr>qty_o := qty_o (rest ! k) - qty_t (last new)\<rparr> # drop (Suc k) rest"
        then have "new \<noteq> []" by auto
        with a show ?thesis by simp
      qed
    qed
  next
    case part
    let ?t = "emplace_trade is_bid inc r p (qty_o inc)"
    from Cons.prems part have "tr' = tr @ [?t]" "lvl' = r\<lparr>qty_o := qty_o r - qty_o inc\<rparr> # rest"
      by (simp_all add: match_level_Cons)
    with part show ?thesis
      by (intro exI [of _ 0] exI [of _ "[?t]"]) simp
  qed
qed

lemma match_level_fifo:
  assumes "match_level is_bid inc p lvl idx tr = (inc', lvl', idx', tr')"
  shows "\<exists>new. tr' = tr @ new \<and> fifo_fill is_bid lvl lvl' new \<and> (\<forall>t\<in>set new. price_t t = p)"
proof -
  from match_level_fifo_raw [OF assms] obtain k new where n:
    "tr' = tr @ new" "k \<le> length lvl"
    "map (resting_id is_bid) new = take (length new) (map id_o lvl)"
    "take k (map qty_t new) = take k (map qty_o lvl)"
    "(length new = k \<and> lvl' = drop k lvl) \<or>
      (length new = Suc k \<and> k < length lvl \<and>
       0 < qty_t (last new) \<and> qty_t (last new) < qty_o (lvl ! k) \<and>
       lvl' = (lvl ! k)\<lparr>qty_o := qty_o (lvl ! k) - qty_t (last new)\<rparr> # drop (Suc k) lvl)"
    by blast
  from n(2-5) have "fifo_fill is_bid lvl lvl' new"
    unfolding fifo_fill_def by blast
  moreover from match_level_trades [OF assms] n(1) have "\<forall>t\<in>set new. price_t t = p"
    by (metis emplace_trade_sel(1) same_append_eq)
  ultimately show ?thesis using n(1) by blast
qed

lemma queue_at_Cons:
  "queue_at ((k, lvl) # book) p = (if k = p then lvl else queue_at book p)"
  by (simp add: queue_at_def)

lemma queue_at_absent: "p \<notin> fst ` set book \<Longrightarrow> queue_at book p = []"
  by (simp add: queue_at_def map_of_eq_None_iff [THEN iffD2])

lemma queue_at_member: "distinct (map fst book) \<Longrightarrow> (p, lvl) \<in> set book \<Longrightarrow> queue_at book p = lvl"
  by (simp add: queue_at_def)

lemma match_book_prices:
  assumes "match_book b inc book idx tr = (inc', book', idx', tr')"
  shows "\<exists>new. tr' = tr @ new \<and> (\<forall>t\<in>set new. price_t t \<in> fst ` set book)"
proof -
  from match_book_trades [OF assms] obtain new where n: "tr' = tr @ new"
    "\<forall>t\<in>set new. \<exists>(p, lvl)\<in>set book. \<exists>r\<in>set lvl.
        crosses b p (price_o inc) \<and> t = emplace_trade b inc r p (qty_t t)"
    by blast
  have "price_t t \<in> fst ` set book" if "t \<in> set new" for t
  proof -
    from n(2) that obtain p lvl r where "(p, lvl) \<in> set book"
      "t = emplace_trade b inc r p (qty_t t)" by blast
    then show ?thesis by (metis emplace_trade_sel(1) fst_conv image_eqI)
  qed
  with n(1) show ?thesis by blast
qed

lemma match_book_keys:
  "match_book b inc book idx tr = (inc', book', idx', tr') \<Longrightarrow> fst ` set book' \<subseteq> fst ` set book"
proof (induction inc book idx tr rule: match_book_induct [where b = b])
  case (Nil inc idx tr)
  then show ?case by simp
next
  case (Stop inc p lvl book idx tr)
  then show ?case by simp
next
  case (Erase inc p lvl book idx tr inc1 idx1 tr1)
  from Erase.prems Erase.hyps(4) have "match_book b inc1 book idx1 tr1 = (inc', book', idx', tr')"
    by simp
  from Erase.IH [OF this] show ?case by auto
next
  case (Keep inc p lvl book idx tr inc1 lvl1 idx1 tr1)
  from Keep.prems Keep.hyps(6) have "book' = (p, lvl1) # book" by simp
  then show ?case by simp
qed

lemma match_book_fifo:
  assumes "match_book b inc book idx tr = (inc', book', idx', tr')"
    and "distinct (map fst book)"
  shows "\<exists>new. tr' = tr @ new \<and>
    (\<forall>(p, lvl)\<in>set book. fifo_fill b lvl (queue_at book' p) [t\<leftarrow>new. price_t t = p])"
  using assms
proof (induction inc book idx tr rule: match_book_induct [where b = b])
  case (Nil inc idx tr)
  then show ?case by simp
next
  case (Stop inc p lvl book idx tr)
  from Stop.prems(1) Stop.hyps(2) have eq: "tr' = tr" "book' = (p, lvl) # book" by simp_all
  have "fifo_fill b l (queue_at ((p, lvl) # book) k) []" if "(k, l) \<in> set ((p, lvl) # book)" for k l
    using queue_at_member [OF Stop.prems(2) that] by simp
  then show ?case
    unfolding eq by (intro exI [of _ "[]"]) (simp add: case_prod_beta)
next
  case (Erase inc p lvl book idx tr inc1 idx1 tr1)
  from Erase.prems(1) Erase.hyps(4) have r: "match_book b inc1 book idx1 tr1 = (inc', book', idx', tr')"
    by simp
  from Erase.prems(2) have d: "distinct (map fst book)" "p \<notin> fst ` set book" by simp_all
  from match_level_fifo [OF Erase.hyps(3)] obtain new1 where n1:
    "tr1 = tr @ new1" "fifo_fill b lvl [] new1" "\<forall>t\<in>set new1. price_t t = p" by blast
  from Erase.IH [OF r d(1)] obtain new2 where n2: "tr' = tr1 @ new2"
    "\<forall>(k, l)\<in>set book. fifo_fill b l (queue_at book' k) [t\<leftarrow>new2. price_t t = k]" by blast
  from match_book_prices [OF r] n2(1) have p2: "\<forall>t\<in>set new2. price_t t \<in> fst ` set book"
    by simp
  from match_book_keys [OF r] d(2) have "p \<notin> fst ` set book'" by blast
  then have q: "queue_at book' p = []" by (rule queue_at_absent)
  from p2 d(2) have f2: "[t\<leftarrow>new2. price_t t = p] = []"
    by (auto simp: filter_empty_conv)
  from n1(3) have f1: "[t\<leftarrow>new1. price_t t = p] = new1"
    by (simp add: filter_id_conv)
  have other: "[t\<leftarrow>new1. price_t t = k] = []" if "(k, l) \<in> set book" for k l
  proof -
    from that d(2) have "k \<noteq> p" by force
    with n1(3) show ?thesis by (auto simp: filter_empty_conv)
  qed
  show ?case
  proof (intro exI [of _ "new1 @ new2"] conjI)
    show "tr' = tr @ new1 @ new2" using n1(1) n2(1) by simp
    show "\<forall>(k, l)\<in>set ((p, lvl) # book).
        fifo_fill b l (queue_at book' k) [t\<leftarrow>new1 @ new2. price_t t = k]"
    proof (clarify, goal_cases)
      case (1 k l)
      then consider "k = p" "l = lvl" | "(k, l) \<in> set book" by auto
      then show ?case
      proof cases
        case 1
        with n1(2) show ?thesis by (simp add: f1 f2 q)
      next
        case 2
        with n2(2) other [OF 2] show ?thesis by auto
      qed
    qed
  qed
next
  case (Keep inc p lvl book idx tr inc1 lvl1 idx1 tr1)
  from Keep.prems(1) Keep.hyps(6) have eq: "tr' = tr1" "book' = (p, lvl1) # book" by simp_all
  from Keep.prems(2) have d: "distinct (map fst book)" "p \<notin> fst ` set book" by simp_all
  from match_level_fifo [OF Keep.hyps(3)] obtain new1 where n1:
    "tr1 = tr @ new1" "fifo_fill b lvl lvl1 new1" "\<forall>t\<in>set new1. price_t t = p" by blast
  from n1(3) have f1: "[t\<leftarrow>new1. price_t t = p] = new1"
    by (simp add: filter_id_conv)
  have other: "[t\<leftarrow>new1. price_t t = k] = [] \<and> queue_at ((p, lvl1) # book) k = l"
    if "(k, l) \<in> set book" for k l
  proof -
    from that d(2) have "k \<noteq> p" by force
    moreover from d(1) that have "queue_at book k = l" by (rule queue_at_member)
    ultimately show ?thesis using n1(3) by (auto simp: filter_empty_conv queue_at_Cons)
  qed
  show ?case
    unfolding eq
  proof (intro exI [of _ new1] conjI)
    show "tr1 = tr @ new1" by (rule n1(1))
    show "\<forall>(k, l)\<in>set ((p, lvl) # book).
        fifo_fill b l (queue_at ((p, lvl1) # book) k) [t\<leftarrow>new1. price_t t = k]"
    proof (clarify, goal_cases)
      case (1 k l)
      then consider "k = p" "l = lvl" | "(k, l) \<in> set book" by auto
      then show ?case
      proof cases
        case 1
        with n1(2) show ?thesis by (simp add: f1 queue_at_Cons)
      next
        case 2
        with other [OF 2] show ?thesis by simp
      qed
    qed
  qed
qed

lemma match_fifo:
  assumes inv: "invar s" and m: "match inc is_bid s = (inc', s')"
  shows "\<exists>new. trades s' = trades s @ new \<and>
    (\<forall>(p, lvl)\<in>set (side (\<not> is_bid) s).
       fifo_fill is_bid lvl (queue_at (side (\<not> is_bid) s') p) [t\<leftarrow>new. price_t t = p])"
proof (cases is_bid)
  case True
  with m have "match inc True s = (inc', s')" by simp
  then obtain book' idx' tr' where
    r: "match_book True inc (asks s) (order_index s) (trades s) = (inc', book', idx', tr')"
    and s': "s' = s\<lparr>asks := book', order_index := idx', trades := tr'\<rparr>"
    by (rule match_bid_cases)
  from invar_side_distinct [OF inv, of False] have "distinct (map fst (asks s))"
    by (simp add: side_def)
  from match_book_fifo [OF r this] True show ?thesis by (simp add: side_def s')
next
  case False
  with m have "match inc False s = (inc', s')" by simp
  then obtain book' idx' tr' where
    r: "match_book False inc (bids s) (order_index s) (trades s) = (inc', book', idx', tr')"
    and s': "s' = s\<lparr>bids := book', order_index := idx', trades := tr'\<rparr>"
    by (rule match_ask_cases)
  from invar_side_distinct [OF inv, of True] have "distinct (map fst (bids s))"
    by (simp add: side_def)
  from match_book_fifo [OF r this] False show ?thesis by (simp add: side_def s')
qed

lemma side_bump [simp]: "side c (bump s) = side c s"
  by (simp add: side_def bump_def)

lemma side_rest_order_other [simp]: "side (\<not> b) (rest_order b x s) = side (\<not> b) s"
  by (cases b) (simp_all add: side_def rest_order_def)

section \<open>Market orders\<close>

text \<open>
  \<open>add_market\<close> is \<open>match\<close> on an order priced \<open>market_price\<close>; the order is a local
  variable of the call and is never inserted.
\<close>

lemma add_market_is_match:
  "0 < q \<Longrightarrow>
   add_market q b s = (next_id s, snd (match (incoming (market_price b) q s) b (bump s)))"
  by (cases "match (incoming (market_price b) q s) b (bump s)")
     (simp add: add_market_unfold market_price_def)

text \<open>While every opposing price is within the sentinel, a market order sweeps: it ends
  with no quantity left or with the opposing ladder empty.\<close>

lemma market_sweep_within_sentinel:
  assumes inv: "invar s" and q: "0 < q"
    and within: "\<forall>k\<in>fst ` set (side (\<not> b) s). crosses b k (market_price b)"
  shows "market_residual q b s = 0 \<or> side (\<not> b) (snd (add_market q b s)) = []"
proof -
  let ?inc = "incoming (market_price b) q s"
  obtain inc' s1 where m: "match ?inc b (bump s) = (inc', s1)"
    by (cases "match ?inc b (bump s)")
  from inv have i: "invar (bump s)" by simp
  from q have q0: "0 \<le> qty_o ?inc" by (simp add: incoming_def)
  note M = match_invar [OF i q0 m]
  have "snd (add_market q b s) = snd (match ?inc b (bump s))"
    by (simp only: add_market_is_match [OF q] snd_conv)
  moreover have "market_residual q b s = qty_o (fst (match ?inc b (bump s)))"
    by (simp only: market_residual_def)
  ultimately have s1: "snd (add_market q b s) = s1" "market_residual q b s = qty_o inc'"
    by (simp_all only: m fst_conv snd_conv)
  show ?thesis
  proof (cases "0 < qty_o inc'")
    case False
    with M(2) have "qty_o inc' = 0" by linarith
    then have "market_residual q b s = 0" by (simp only: s1(2))
    then show ?thesis by (rule disjI1)
  next
    case True
    from M(5) have sub: "fst ` set (side (\<not> b) s1) \<subseteq> fst ` set (side (\<not> b) s)"
      by (simp only: side_bump)
    from M(3) [OF True] have nc: "\<forall>k\<in>fst ` set (side (\<not> b) s1). \<not> crosses b k (market_price b)"
      by (simp only: incoming_def order.simps)
    have "side (\<not> b) s1 = []"
    proof (cases "side (\<not> b) s1")
      case Nil
      then show ?thesis .
    next
      case (Cons a rest)
      then have k: "fst a \<in> fst ` set (side (\<not> b) s1)" by simp
      from nc k have "\<not> crosses b (fst a) (market_price b)" by (rule bspec)
      moreover from sub k have "fst a \<in> fst ` set (side (\<not> b) s)" by (rule subsetD)
      with within have "crosses b (fst a) (market_price b)" by (rule bspec)
      ultimately show ?thesis by (rule notE)
    qed
    then have "side (\<not> b) (snd (add_market q b s)) = []" by (simp only: s1(1))
    then show ?thesis by (rule disjI2)
  qed
qed

text \<open>
  Claim C5. A market order is to match every level of the opposing ladder, best price
  first, until its quantity is exhausted or the opposing ladder is empty. On the book
  that holds one ask of 10 at 2000000000, \<open>add_market 5 True\<close> records no trade and
  leaves the ask in place: its 5 units are dropped while an opposing order rests. The
  same happens to a market sell when the only bid has a negative price.
\<close>

theorem market_order_skips_beyond_sentinel:
  "asks far_ask = [(2000000000, [\<lparr>id_o = 1, price_o = 2000000000, qty_o = 10\<rparr>])] \<and>
   trades (snd (add_market 5 True far_ask)) = [] \<and>
   asks (snd (add_market 5 True far_ask)) = asks far_ask \<and>
   market_residual 5 True far_ask = 5 \<and>
   bids low_bid = [(- 1, [\<lparr>id_o = 1, price_o = - 1, qty_o = 10\<rparr>])] \<and>
   trades (snd (add_market 5 False low_bid)) = [] \<and>
   bids (snd (add_market 5 False low_bid)) = bids low_bid \<and>
   market_residual 5 False low_bid = 5"
  by (simp add: far_ask_def low_bid_def book_eval ledger_eval)

section \<open>The cost of cancellation\<close>

lemma scan_steps_position:
  "erase_id i lvl = Some lvl' \<Longrightarrow>
   \<exists>j. scan_steps i lvl = Suc j \<and> j < length lvl \<and> id_o (lvl ! j) = i \<and>
       i \<notin> id_o ` set (take j lvl) \<and> lvl' = take j lvl @ drop (Suc j) lvl"
proof (induction lvl arbitrary: lvl')
  case Nil
  then show ?case by simp
next
  case (Cons x xs)
  show ?case
  proof (cases "id_o x = i")
    case True
    with Cons.prems show ?thesis by (intro exI [of _ 0]) simp
  next
    case False
    with Cons.prems obtain xs' where e: "erase_id i xs = Some xs'" and l: "lvl' = x # xs'"
      by (auto split: option.splits)
    from Cons.IH [OF e] obtain j where j: "scan_steps i xs = Suc j" "j < length xs"
      "id_o (xs ! j) = i" "i \<notin> id_o ` set (take j xs)" "xs' = take j xs @ drop (Suc j) xs"
      by blast
    with False l show ?thesis by (intro exI [of _ "Suc j"]) simp
  qed
qed

text \<open>In a state that satisfies the invariant, cancelling an indexed order costs its
  position in the queue of its level.\<close>

lemma cancel_scan_steps_position:
  assumes "invar s" and "order_index s i = Some (p, c)"
  shows "\<exists>lvl j. map_of (side c s) p = Some lvl \<and> j < length lvl \<and> id_o (lvl ! j) = i \<and>
    i \<notin> id_o ` set (take j lvl) \<and> cancel_scan_steps i s = Suc j"
proof -
  from cancel_in_finds [OF assms] obtain lvl lvl' where
    m: "map_of (side c s) p = Some lvl" and e: "erase_id i lvl = Some lvl'"
    by (auto simp: cancel_in_def split: option.splits)
  from scan_steps_position [OF e] obtain j where
    "scan_steps i lvl = Suc j" "j < length lvl" "id_o (lvl ! j) = i" "i \<notin> id_o ` set (take j lvl)"
    by blast
  with m assms(2) show ?thesis
    by (intro exI [of _ lvl] exI [of _ j]) (simp add: cancel_scan_steps_def)
qed

lemma run_snoc: "run (cs @ [c]) s = step c (run cs s)"
  by (induction cs arbitrary: s) simp_all

lemma same_price_asks_Suc:
  "same_price_asks p (Suc n) = snd (add_limit p 1 False (same_price_asks p n))"
proof -
  have "replicate (Suc n) (Add_limit p 1 False) = replicate n (Add_limit p 1 False) @ [Add_limit p 1 False]"
    by (simp add: replicate_append_same)
  then show ?thesis
    unfolding same_price_asks_def by (simp only: run_snoc step.simps)
qed

lemma same_price_asks_state:
  "bids (same_price_asks p n) = [] \<and>
   next_id (same_price_asks p n) = of_nat (Suc n) \<and>
   asks (same_price_asks p n) = (if n = 0 then [] else [(p, map (unit_ask p) [1..<Suc n])]) \<and>
   (\<forall>j. 0 < j \<and> j \<le> n \<longrightarrow> order_index (same_price_asks p n) (of_nat j) = Some (p, False))"
proof (induction n)
  case 0
  show ?case by (auto simp: same_price_asks_def empty_book_def)
next
  case (Suc n)
  let ?s = "same_price_asks p n"
  let ?inc = "incoming p 1 ?s"
  from Suc have st: "bids ?s = []" "next_id ?s = of_nat (Suc n)"
    "asks ?s = (if n = 0 then [] else [(p, map (unit_ask p) [1..<Suc n])])"
    "\<And>j. 0 < j \<Longrightarrow> j \<le> n \<Longrightarrow> order_index ?s (of_nat j) = Some (p, False)"
    by simp_all
  have m: "match ?inc False (bump ?s) = (?inc, bump ?s)"
    by (simp add: match_def bump_def st(1))
  have q: "(0::int) < 1" by simp
  have inc: "?inc = unit_ask p (Suc n)" by (simp add: incoming_def unit_ask_def st(2))
  have s': "same_price_asks p (Suc n) = rest_order False (unit_ask p (Suc n)) (bump ?s)"
    unfolding same_price_asks_Suc add_limit_unfold [OF q m] by (simp add: inc incoming_def [symmetric])
       (simp add: unit_ask_def)
  show ?case
    unfolding s'
  proof (intro conjI allI impI)
    show "bids (rest_order False (unit_ask p (Suc n)) (bump ?s)) = []"
      by (simp add: rest_order_def bump_def st(1))
    show "next_id (rest_order False (unit_ask p (Suc n)) (bump ?s)) = of_nat (Suc (Suc n))"
      by (simp add: st(2) rest_order_def bump_def)
    show "asks (rest_order False (unit_ask p (Suc n)) (bump ?s)) =
        (if Suc n = 0 then [] else [(p, map (unit_ask p) [1..<Suc (Suc n)])])"
      by (simp add: rest_order_def bump_def st(3) unit_ask_def)
    fix j assume j: "0 < j \<and> j \<le> Suc n"
    show "order_index (rest_order False (unit_ask p (Suc n)) (bump ?s)) (of_nat j) = Some (p, False)"
    proof (cases "j = Suc n")
      case True
      then show ?thesis by (simp add: unit_ask_def rest_order_def)
    next
      case False
      with j st(4) [of j] show ?thesis by (simp add: bump_def unit_ask_def rest_order_def)
    qed
  qed
qed

lemma scan_steps_snoc:
  "i \<notin> id_o ` set xs \<Longrightarrow> id_o x = i \<Longrightarrow> scan_steps i (xs @ [x]) = Suc (length xs)"
  by (induction xs) auto

lemma of_nat_order_id_inj:
  "m < 2 ^ 64 \<Longrightarrow> n < 2 ^ 64 \<Longrightarrow> (of_nat m :: order_id) = of_nat n \<Longrightarrow> m = n"
  by (simp add: word_of_nat_eq_iff take_bit_nat_eq_self)

text \<open>Cancelling the youngest of \<open>n\<close> orders at one price takes \<open>n\<close> tests of the loop.\<close>

lemma cancel_scan_steps_grows:
  assumes "0 < n" and "n < 2 ^ 64"
  shows "cancel_scan_steps (of_nat n) (same_price_asks p n) = n"
proof -
  obtain k where n: "n = Suc k" using assms(1) by (cases n) auto
  note S = same_price_asks_state [of p n]
  from S assms(1) have ix: "order_index (same_price_asks p n) (of_nat n) = Some (p, False)" by simp
  from S assms(1) have a: "asks (same_price_asks p n) = [(p, map (unit_ask p) [1..<Suc n])]" by simp
  have l: "map (unit_ask p) [1..<Suc n] = map (unit_ask p) [1..<n] @ [unit_ask p n]"
    using assms(1) by (simp add: n)
  have "of_nat n \<notin> id_o ` set (map (unit_ask p) [1..<n])"
  proof
    assume "of_nat n \<in> id_o ` set (map (unit_ask p) [1..<n])"
    then obtain j where j: "1 \<le> j" "j < n" "(of_nat n :: order_id) = of_nat j"
      by (auto simp: unit_ask_def)
    from j(2) assms(2) have "j < 2 ^ 64" by simp
    from of_nat_order_id_inj [OF assms(2) this j(3)] j(2) show False by simp
  qed
  then have "scan_steps (of_nat n) (map (unit_ask p) [1..<n] @ [unit_ask p n]) = Suc (length (map (unit_ask p) [1..<n]))"
    by (rule scan_steps_snoc) (simp add: unit_ask_def)
  then have "scan_steps (of_nat n) (map (unit_ask p) [1..<Suc n]) = n"
    unfolding l using assms(1) by simp
  with ix a show ?thesis by (simp add: cancel_scan_steps_def side_def)
qed

text \<open>
  Claim C9. \<open>cancel\<close> is to remove a resting order in constant time, through the order
  index, without traversing the queue of its price level. With three asks resting at
  100 (ids 1, 2, 3, as in \<^verbatim>\<open>test_fifo_priority\<close>), cancelling order 3 succeeds after the
  loop has tested all three orders of the queue, and cancelling order 1 after one test:
  the index gives the price and the side, and the queue is then searched from its front.
\<close>

theorem cancel_scans_queue:
  "fst (cancel 3 three_asks) \<and> cancel_scan_steps 3 three_asks = 3 \<and>
   fst (cancel 1 three_asks) \<and> cancel_scan_steps 1 three_asks = 1"
  by (simp add: three_asks_def cancel_scan_steps_def side_def book_eval)

section \<open>Identifiers\<close>

lemma ids_below_empty: "ids_below empty_book"
  by (simp add: ids_below_def empty_book_def side_def)

lemma match_rests:
  assumes "match inc b s = (inc', s')" and "rests (side c s') j k"
  shows "rests (side c s) j k"
proof (cases b)
  case True
  with assms have "match inc True s = (inc', s')" by simp
  then obtain book' idx' tr' where
    r: "match_book True inc (asks s) (order_index s) (trades s) = (inc', book', idx', tr')"
    and s': "s' = s\<lparr>asks := book', order_index := idx', trades := tr'\<rparr>"
    by (rule match_bid_cases)
  show ?thesis
  proof (cases c)
    case True
    with assms(2) show ?thesis by (simp add: side_def s')
  next
    case False
    with assms(2) have "rests book' j k" by (simp add: side_def s')
    with r have "rests (asks s) j k" by (rule match_book_rests)
    with False show ?thesis by (simp add: side_def)
  qed
next
  case False
  with assms have "match inc False s = (inc', s')" by simp
  then obtain book' idx' tr' where
    r: "match_book False inc (bids s) (order_index s) (trades s) = (inc', book', idx', tr')"
    and s': "s' = s\<lparr>bids := book', order_index := idx', trades := tr'\<rparr>"
    by (rule match_ask_cases)
  show ?thesis
  proof (cases c)
    case False
    with assms(2) show ?thesis by (simp add: side_def s')
  next
    case True
    with assms(2) have "rests book' j k" by (simp add: side_def s')
    with r have "rests (bids s) j k" by (rule match_book_rests)
    with True show ?thesis by (simp add: side_def)
  qed
qed

lemma rest_order_rests:
  "rests (side c (rest_order b x s)) j k =
     (rests (side c s) j k \<or> (c = b \<and> j = id_o x \<and> k = price_o x))"
proof (cases b)
  case True
  have "rests (push_back_at (>) (price_o x) x (bids s)) j k =
      (rests (bids s) j k \<or> (j = id_o x \<and> k = price_o x))"
    by (rule push_back_at_rests [where lt = "(>)", OF tri_greater])
  with True show ?thesis by (cases c) (auto simp: side_def rest_order_def)
next
  case False
  have "rests (push_back_at (<) (price_o x) x (asks s)) j k =
      (rests (asks s) j k \<or> (j = id_o x \<and> k = price_o x))"
    by (rule push_back_at_rests [where lt = "(<)", OF tri_less])
  with False show ?thesis by (cases c) (auto simp: side_def rest_order_def)
qed

lemma next_id_rest_order [simp]: "next_id (rest_order b x s) = next_id s"
  by (simp add: rest_order_def)

lemma next_id_bump [simp]: "next_id (bump s) = next_id s + 1"
  by (simp add: bump_def)

text \<open>What an accepted submission does to the ids.\<close>

lemma add_limit_ids:
  assumes "0 < q"
  shows "next_id (snd (add_limit p q b s)) = next_id s + 1"
    and "rests (side c (snd (add_limit p q b s))) j k \<Longrightarrow> rests (side c s) j k \<or> j = next_id s"
proof -
  obtain inc' s1 where m: "match (incoming p q s) b (bump s) = (inc', s1)"
    by (cases "match (incoming p q s) b (bump s)")
  note u = add_limit_unfold [OF assms m]
  from match_same_order [OF m] have same: "id_o inc' = next_id s" "next_id s1 = next_id s + 1"
    by (simp_all add: incoming_def)
  show "next_id (snd (add_limit p q b s)) = next_id s + 1"
    by (simp add: u same)
  assume "rests (side c (snd (add_limit p q b s))) j k"
  then have "rests (side c s1) j k \<or> j = id_o inc'"
    by (auto simp: u rest_order_rests split: if_splits)
  with match_rests [OF m, of c j k] same show "rests (side c s) j k \<or> j = next_id s"
    by auto
qed

lemma add_market_ids:
  assumes "0 < q"
  shows "next_id (snd (add_market q b s)) = next_id s + 1"
    and "rests (side c (snd (add_market q b s))) j k \<Longrightarrow> rests (side c s) j k"
proof -
  let ?inc = "incoming (market_price b) q s"
  obtain inc' s1 where m: "match ?inc b (bump s) = (inc', s1)"
    by (cases "match ?inc b (bump s)")
  have u: "snd (add_market q b s) = s1"
    by (simp add: add_market_is_match [OF assms] m)
  from match_same_order [OF m] show "next_id (snd (add_market q b s)) = next_id s + 1"
    by (simp add: u)
  assume "rests (side c (snd (add_market q b s))) j k"
  with match_rests [OF m, of c j k] show "rests (side c s) j k"
    by (simp add: u)
qed

lemma cancel_ids:
  assumes "invar s"
  shows "next_id (snd (cancel i s)) = next_id s"
    and "trades (snd (cancel i s)) = trades s"
    and "rests (side c (snd (cancel i s))) j k \<Longrightarrow> rests (side c s) j k"
proof -
  show "next_id (snd (cancel i s)) = next_id s" "trades (snd (cancel i s)) = trades s"
    by (auto simp: cancel_def split: option.splits prod.splits)
  assume a: "rests (side c (snd (cancel i s))) j k"
  show "rests (side c s) j k"
  proof (cases "order_index s i")
    case None
    with a show ?thesis by (simp add: cancel_def)
  next
    case (Some v)
    obtain p d where v: "v = (p, d)" by (cases v)
    from Some v have ix: "order_index s i = Some (p, d)" by simp
    from cancel_in_finds [OF assms ix] obtain book' where
      ci: "cancel_in i p (side d s) = Some book'" by auto
    show ?thesis
    proof (cases d)
      case True
      from ci True have ci': "cancel_in i p (bids s) = Some book'" by (simp add: side_def)
      from assms have ok: "levels_ok (bids s)" "sorted_wrt (>) (map fst (bids s))"
        by (simp_all add: invar_def)
      note older = cancel_in_ladder(4) [OF ci' ok]
      from ix ci' True
      have "snd (cancel i s) = s\<lparr>bids := book', order_index := (order_index s)(i := None)\<rparr>"
        by (simp add: cancel_def)
      with a older [of j k] show ?thesis by (cases c) (simp_all add: side_def)
    next
      case False
      from ci False have ci': "cancel_in i p (asks s) = Some book'" by (simp add: side_def)
      from assms have ok: "levels_ok (asks s)" "sorted_wrt (<) (map fst (asks s))"
        by (simp_all add: invar_def)
      note older = cancel_in_ladder(4) [OF ci' ok]
      from ix ci' False
      have "snd (cancel i s) = s\<lparr>asks := book', order_index := (order_index s)(i := None)\<rparr>"
        by (simp add: cancel_def)
      with a older [of j k] show ?thesis by (cases c) (simp_all add: side_def)
    qed
  qed
qed

lemma trade_against_ids:
  assumes "trade_against s b i t" and "j = buyer_id t \<or> j = seller_id t"
  shows "j = i \<or> (\<exists>k c. rests (side c s) j k)"
proof -
  from assms(1) obtain p lvl r where
    r: "(p, lvl) \<in> set (side (\<not> b) s)" "r \<in> set lvl"
      "buyer_id t = (if b then i else id_o r)" "seller_id t = (if b then id_o r else i)"
    unfolding trade_against_def by blast
  from r(1,2) have "rests (side (\<not> b) s) (id_o r) p" by (auto simp: rests_def)
  then have "\<exists>k c. rests (side c s) (id_o r) k" by blast
  with assms(2) r(3,4) show ?thesis by (cases b) auto
qed

lemma submission_trade_ids:
  assumes inv: "invar s" and q: "0 < q"
    and t: "t \<in> set (trades (snd (add_limit p q b s))) \<or> t \<in> set (trades (snd (add_market q b s)))"
    and j: "j = buyer_id t \<or> j = seller_id t"
  shows "t \<in> set (trades s) \<or> j = next_id s \<or> (\<exists>k c. rests (side c s) j k)"
proof -
  from inv have inv': "invar (bump s)" by simp
  have *: "t \<in> set (trades s) \<or> j = next_id s \<or> (\<exists>k c. rests (side c s) j k)"
    if m: "match (incoming x q s) b (bump s) = (inc', s1)" and t1: "t \<in> set (trades s1)"
    for x inc' s1
  proof -
    from match_trades [OF inv' m] obtain new where n: "trades s1 = trades s @ new"
      "\<forall>t\<in>set new. trade_against s b (next_id s) t"
      by (auto simp: incoming_def)
    from t1 n(1) consider "t \<in> set (trades s)" | "t \<in> set new" by auto
    then show ?thesis
    proof cases
      case 1
      then show ?thesis by simp
    next
      case 2
      with n(2) have "trade_against s b (next_id s) t" by simp
      from trade_against_ids [OF this j] show ?thesis by simp
    qed
  qed
  obtain inc1 s1 where m1: "match (incoming p q s) b (bump s) = (inc1, s1)"
    by (cases "match (incoming p q s) b (bump s)")
  obtain inc2 s2 where m2: "match (incoming (market_price b) q s) b (bump s) = (inc2, s2)"
    by (cases "match (incoming (market_price b) q s) b (bump s)")
  have "trades (snd (add_limit p q b s)) = trades s1"
    by (simp add: add_limit_unfold [OF q m1])
  moreover have "trades (snd (add_market q b s)) = trades s2"
    by (simp add: add_market_is_match [OF q] m2)
  ultimately show ?thesis using t * [OF m1] * [OF m2] by auto
qed

lemma unat_next: "unat (x :: order_id) + 1 < 2 ^ 64 \<Longrightarrow> unat (x + 1) = unat x + 1"
  by (simp add: unat_word_ariths)

lemma unat_next_le: "unat (x + 1 :: order_id) \<le> unat x + 1"
  by (simp add: unat_word_ariths)

lemma submission_ids_below:
  assumes inv: "invar s" and below: "ids_below s" and q: "0 < q"
    and room: "unat (next_id s) + 1 < 2 ^ 64"
  shows "ids_below (snd (add_limit p q b s))" and "ids_below (snd (add_market q b s))"
proof -
  from room have n: "unat (next_id s + 1) = unat (next_id s) + 1" by (rule unat_next)
  from below have b: "0 < unat (next_id s)"
    "\<And>i p c. rests (side c s) i p \<Longrightarrow> 0 < unat i \<and> unat i < unat (next_id s)"
    "\<And>t. t \<in> set (trades s) \<Longrightarrow>
       unat (buyer_id t) < unat (next_id s) \<and> unat (seller_id t) < unat (next_id s)"
    unfolding ids_below_def by blast+
  have known: "unat j < unat (next_id s) + 1"
    if "t \<in> set (trades (snd (add_limit p q b s))) \<or> t \<in> set (trades (snd (add_market q b s)))"
      and "j = buyer_id t \<or> j = seller_id t" for t j
  proof -
    from submission_trade_ids [OF inv q that]
    consider "t \<in> set (trades s)" | "j = next_id s" | k c where "rests (side c s) j k" by blast
    then show ?thesis
    proof cases
      case 1
      from b(3) [OF 1] that(2) show ?thesis by auto
    next
      case 2
      then show ?thesis by simp
    next
      case 3
      from b(2) [OF 3] show ?thesis by simp
    qed
  qed
  show "ids_below (snd (add_limit p q b s))"
    unfolding ids_below_def add_limit_ids(1) [OF q] n
  proof (intro conjI allI impI ballI)
    show "0 < unat (next_id s) + 1" by simp
  next
    fix i k c assume "rests (side c (snd (add_limit p q b s))) i k"
    from add_limit_ids(2) [OF q this] have "rests (side c s) i k \<or> i = next_id s" .
    with b(1) b(2) [of c i k] show "0 < unat i" "unat i < unat (next_id s) + 1" by auto
  next
    fix t assume "t \<in> set (trades (snd (add_limit p q b s)))"
    then have t: "t \<in> set (trades (snd (add_limit p q b s))) \<or> t \<in> set (trades (snd (add_market q b s)))"
      by (rule disjI1)
    show "unat (buyer_id t) < unat (next_id s) + 1" by (rule known [OF t]) simp
    show "unat (seller_id t) < unat (next_id s) + 1" by (rule known [OF t]) simp
  qed
  show "ids_below (snd (add_market q b s))"
    unfolding ids_below_def add_market_ids(1) [OF q] n
  proof (intro conjI allI impI ballI)
    show "0 < unat (next_id s) + 1" by simp
  next
    fix i k c assume "rests (side c (snd (add_market q b s))) i k"
    from add_market_ids(2) [OF q this] have "rests (side c s) i k" .
    with b(2) [of c i k] show "0 < unat i" "unat i < unat (next_id s) + 1" by auto
  next
    fix t assume "t \<in> set (trades (snd (add_market q b s)))"
    then have t: "t \<in> set (trades (snd (add_limit p q b s))) \<or> t \<in> set (trades (snd (add_market q b s)))"
      by (rule disjI2)
    show "unat (buyer_id t) < unat (next_id s) + 1" by (rule known [OF t]) simp
    show "unat (seller_id t) < unat (next_id s) + 1" by (rule known [OF t]) simp
  qed
qed

lemma step_ids_below:
  assumes inv: "invar s" and below: "ids_below s" and room: "unat (next_id s) + 1 < 2 ^ 64"
  shows "ids_below (step c s)" and "unat (next_id (step c s)) \<le> unat (next_id s) + 1"
proof -
  have "ids_below (step c s) \<and> unat (next_id (step c s)) \<le> unat (next_id s) + 1"
  proof (cases c)
    case (Add_limit p q b)
    show ?thesis
    proof (cases "0 < q")
      case True
      from submission_ids_below(1) [OF inv below True room] add_limit_ids(1) [OF True, of p b s]
        unat_next_le [of "next_id s"]
      show ?thesis by (simp add: Add_limit)
    next
      case False
      with below show ?thesis by (simp add: Add_limit add_limit_def)
    qed
  next
    case (Add_market q b)
    show ?thesis
    proof (cases "0 < q")
      case True
      from submission_ids_below(2) [OF inv below True room] add_market_ids(1) [OF True, of b s]
        unat_next_le [of "next_id s"]
      show ?thesis by (simp add: Add_market)
    next
      case False
      with below show ?thesis by (simp add: Add_market add_market_def)
    qed
  next
    case (Cancel i)
    note C = cancel_ids [OF inv, where i = i]
    from below C(3) have "ids_below (snd (cancel i s))"
      unfolding ids_below_def C(1) C(2) by blast
    with C(1) show ?thesis by (simp add: Cancel)
  next
    case Clear
    from below show ?thesis
      by (simp add: Clear clear_def ids_below_def side_def)
  qed
  then show "ids_below (step c s)" and "unat (next_id (step c s)) \<le> unat (next_id s) + 1"
    by simp_all
qed

lemma run_ids_below:
  "invar s \<Longrightarrow> ids_below s \<Longrightarrow> unat (next_id s) + length cs < 2 ^ 64 \<Longrightarrow>
   ids_below (run cs s) \<and> unat (next_id (run cs s)) \<le> unat (next_id s) + length cs"
proof (induction cs arbitrary: s)
  case Nil
  then show ?case by simp
next
  case (Cons c cs)
  from Cons.prems(3) have room: "unat (next_id s) + 1 < 2 ^ 64" by simp
  note S = step_ids_below [OF Cons.prems(1,2) room, of c]
  from S(2) Cons.prems(3) have "unat (next_id (step c s)) + length cs < 2 ^ 64" by simp
  from Cons.IH [OF step_invar [OF Cons.prems(1)] S(1) this] S(2) show ?case by simp
qed

text \<open>The states that fewer than \<open>2\<^sup>6\<^sup>4 - 1\<close> calls reach from the empty book.\<close>

lemma early_ids_below:
  assumes "length cs < 2 ^ 64 - 1"
  shows "ids_below (run cs empty_book)" and "unat (next_id (run cs empty_book)) \<le> length cs + 1"
proof -
  have "unat (next_id empty_book) = 1" by (simp add: empty_book_def)
  with assms run_ids_below [OF invar_empty ids_below_empty, of cs]
  show "ids_below (run cs empty_book)" and "unat (next_id (run cs empty_book)) \<le> length cs + 1"
    by simp_all
qed

lemma step_next_id: "next_id (step c s) = next_id s \<or> next_id (step c s) = next_id s + 1"
proof (cases c)
  case (Add_limit p q b)
  then show ?thesis
    using add_limit_ids(1) [of q p b s] by (cases "0 < q") (simp_all add: add_limit_def)
next
  case (Add_market q b)
  then show ?thesis
    using add_market_ids(1) [of q b s] by (cases "0 < q") (simp_all add: add_market_def)
next
  case (Cancel i)
  then show ?thesis by (auto simp: cancel_def split: option.splits prod.splits)
next
  case Clear
  then show ?thesis by (simp add: clear_def)
qed

lemma step_rests:
  assumes "invar s" and "rests (side d (step c s)) j k"
  shows "rests (side d s) j k \<or> j = next_id s"
proof (cases c)
  case (Add_limit p q b)
  with assms(2) add_limit_ids(2) [of q d p b s j k] show ?thesis
    by (cases "0 < q") (simp_all add: add_limit_def)
next
  case (Add_market q b)
  with assms(2) add_market_ids(2) [of q d b s j k] show ?thesis
    by (cases "0 < q") (simp_all add: add_market_def)
next
  case (Cancel i)
  with assms(2) cancel_ids(3) [OF assms(1), of d i j k] show ?thesis by simp
next
  case Clear
  with assms(2) show ?thesis by (cases d) (simp_all add: clear_def side_def)
qed

lemma step_never_rests:
  assumes inv: "invar s" and nr: "never_rests i s" and room: "unat (next_id s) + 1 < 2 ^ 64"
  shows "never_rests i (step c s)"
proof -
  from nr have i: "unat i < unat (next_id s)" "\<And>k d. \<not> rests (side d s) i k"
    by (simp_all add: never_rests_def)
  from i(1) have ne: "i \<noteq> next_id s" by auto
  from step_next_id [of c s] unat_next [OF room] i(1)
  have "unat i < unat (next_id (step c s))" by auto
  moreover have "\<not> rests (side d (step c s)) i k" for k d
    using step_rests [OF inv, of d c i k] i(2) ne by blast
  ultimately show ?thesis by (simp add: never_rests_def)
qed

lemma step_next_id_le: "unat (next_id (step c s)) \<le> unat (next_id s) + 1"
  using step_next_id [of c s] unat_next_le [of "next_id s"] by auto

lemma run_never_rests:
  "invar s \<Longrightarrow> never_rests i s \<Longrightarrow> unat (next_id s) + length cs < 2 ^ 64 \<Longrightarrow>
   never_rests i (run cs s)"
proof (induction cs arbitrary: s)
  case Nil
  then show ?case by simp
next
  case (Cons c cs)
  from Cons.prems(3) have room: "unat (next_id s) + 1 < 2 ^ 64" by simp
  from step_next_id_le [of c s] Cons.prems(3)
  have "unat (next_id (step c s)) + length cs < 2 ^ 64" by simp
  from Cons.IH [OF step_invar [OF Cons.prems(1)] step_never_rests [OF Cons.prems(1,2) room] this]
  show ?case by simp
qed

lemma never_rests_unindexed:
  assumes "invar s" and "never_rests i s"
  shows "order_index s i = None"
proof (cases "order_index s i")
  case None
  then show ?thesis .
next
  case (Some v)
  obtain p c where "v = (p, c)" by (cases v)
  with Some assms(1) have "rests (side c s) i p" by (simp add: invar_def)
  with assms(2) show ?thesis by (simp add: never_rests_def)
qed

lemma match_book_index_sub:
  "match_book b inc book idx tr = (inc', book', idx', tr') \<Longrightarrow> idx' i = Some v \<Longrightarrow> idx i = Some v"
  by (drule match_book_index) blast

lemma match_index_sub:
  assumes "match inc b s = (inc', s')" and "order_index s' j = Some v"
  shows "order_index s j = Some v"
proof (cases b)
  case True
  with assms have "match inc True s = (inc', s')" by simp
  then obtain book' idx' tr' where
    r: "match_book True inc (asks s) (order_index s) (trades s) = (inc', book', idx', tr')"
    and s': "s' = s\<lparr>asks := book', order_index := idx', trades := tr'\<rparr>"
    by (rule match_bid_cases)
  from assms(2) have "idx' j = Some v" by (simp add: s')
  with r show ?thesis by (rule match_book_index_sub)
next
  case False
  with assms have "match inc False s = (inc', s')" by simp
  then obtain book' idx' tr' where
    r: "match_book False inc (bids s) (order_index s) (trades s) = (inc', book', idx', tr')"
    and s': "s' = s\<lparr>bids := book', order_index := idx', trades := tr'\<rparr>"
    by (rule match_ask_cases)
  from assms(2) have "idx' j = Some v" by (simp add: s')
  with r show ?thesis by (rule match_book_index_sub)
qed

lemma add_market_inserts_nothing:
  shows "rests (side c (snd (add_market q b s))) j k \<Longrightarrow> rests (side c s) j k"
    and "side b (snd (add_market q b s)) = side b s"
    and "order_index (snd (add_market q b s)) j = Some v \<Longrightarrow> order_index s j = Some v"
proof -
  let ?inc = "incoming (market_price b) q s"
  obtain inc' s1 where m: "match ?inc b (bump s) = (inc', s1)"
    by (cases "match ?inc b (bump s)")
  have u: "0 < q \<Longrightarrow> snd (add_market q b s) = s1"
    by (simp add: add_market_is_match m)
  have id: "\<not> 0 < q \<Longrightarrow> snd (add_market q b s) = s"
    by (simp add: add_market_def)
  show "rests (side c (snd (add_market q b s))) j k \<Longrightarrow> rests (side c s) j k"
    using match_rests [OF m, of c j k] u id by (cases "0 < q") simp_all
  have "side b s1 = side b s"
  proof (cases b)
    case True
    with m have "match ?inc True (bump s) = (inc', s1)" by simp
    then obtain book' idx' tr' where
      "s1 = (bump s)\<lparr>asks := book', order_index := idx', trades := tr'\<rparr>"
      by (rule match_bid_cases)
    with True show ?thesis by (simp add: side_def bump_def)
  next
    case False
    with m have "match ?inc False (bump s) = (inc', s1)" by simp
    then obtain book' idx' tr' where
      "s1 = (bump s)\<lparr>bids := book', order_index := idx', trades := tr'\<rparr>"
      by (rule match_ask_cases)
    with False show ?thesis by (simp add: side_def bump_def)
  qed
  then show "side b (snd (add_market q b s)) = side b s"
    using u id by (cases "0 < q") simp_all
  show "order_index (snd (add_market q b s)) j = Some v \<Longrightarrow> order_index s j = Some v"
    using match_index_sub [OF m, of j v] u id by (cases "0 < q") (simp_all add: bump_def)
qed

text \<open>
  Claim C6. \<open>add_market\<close> inserts no order: its own side of the book is as before, every
  order that rests after the call rested before it, and every index entry after the call
  was there before it; whatever \<open>match\<close> leaves of the market order is dropped. The id
  it returns rests at no price on either side and is no key of the order index, in the
  state after the call and in every state that later calls reach. The run is one in
  which \<open>next_id\<close> has not wrapped around: fewer than \<open>2\<^sup>6\<^sup>4 - 1\<close> calls in all.
\<close>

theorem market_orders_never_rest:
  assumes calls: "length cs + 1 + length cs' < 2 ^ 64 - 1"
    and s: "s = run cs empty_book"
    and mkt: "add_market q is_bid s = (i, s1)"
  shows "side is_bid s1 = side is_bid s \<and>
    (\<forall>c j k. rests (side c s1) j k \<longrightarrow> rests (side c s) j k) \<and>
    dom (order_index s1) \<subseteq> dom (order_index s) \<and>
    (0 < q \<longrightarrow> s1 = snd (match (incoming (market_price is_bid) q s) is_bid (bump s))) \<and>
    (\<forall>c k. \<not> rests (side c (run cs' s1)) i k) \<and>
    i \<notin> dom (order_index (run cs' s1))"
proof -
  from mkt have s1: "s1 = snd (add_market q is_bid s)" and i: "i = fst (add_market q is_bid s)"
    by simp_all
  have inv: "invar s" unfolding s by (rule run_invar [OF invar_empty])
  then have inv1: "invar s1" unfolding s1 by (rule add_market_invar)
  from calls have "length cs < 2 ^ 64 - 1" by simp
  from early_ids_below [OF this] have below: "ids_below s" and n: "unat (next_id s) \<le> length cs + 1"
    unfolding s by simp_all
  from below have b: "0 < unat (next_id s)"
    "\<And>j k c. rests (side c s) j k \<Longrightarrow> 0 < unat j \<and> unat j < unat (next_id s)"
    unfolding ids_below_def by blast+
  have older: "rests (side c s) j k" if "rests (side c s1) j k" for c j k
    using that unfolding s1 by (rule add_market_inserts_nothing(1))
  have nr: "never_rests i s1 \<and> unat (next_id s1) \<le> unat (next_id s) + 1"
  proof (cases "0 < q")
    case True
    from n calls have room: "unat (next_id s) + 1 < 2 ^ 64" by simp
    from True have "i = next_id s" by (simp add: i add_market_is_match)
    moreover from add_market_ids(1) [OF True, of is_bid s] unat_next [OF room]
    have "unat (next_id s1) = unat (next_id s) + 1" by (simp add: s1)
    moreover have "\<not> rests (side c s1) (next_id s) k" for c k
      using b(2) [OF older, of c "next_id s" k] by auto
    ultimately show ?thesis by (simp add: never_rests_def)
  next
    case False
    then have "i = 0" "s1 = s" by (simp_all add: i s1 add_market_def)
    moreover have "\<not> rests (side c s) 0 k" for c k
      using b(2) [of c 0 k] by auto
    ultimately show ?thesis using b(1) by (simp add: never_rests_def)
  qed
  with n calls have "unat (next_id s1) + length cs' < 2 ^ 64" by simp
  with inv1 nr have later: "never_rests i (run cs' s1)" by (intro run_never_rests) simp_all
  have "invar (run cs' s1)" using inv1 by (rule run_invar)
  from never_rests_unindexed [OF this later] have "i \<notin> dom (order_index (run cs' s1))"
    by (simp add: domIff)
  moreover from later have "\<forall>c k. \<not> rests (side c (run cs' s1)) i k"
    by (simp add: never_rests_def)
  moreover have "side is_bid s1 = side is_bid s"
    unfolding s1 by (rule add_market_inserts_nothing(2))
  moreover have "dom (order_index s1) \<subseteq> dom (order_index s)"
    unfolding s1 using add_market_inserts_nothing(3) [of q is_bid s] by (auto simp: domIff)
  moreover have "0 < q \<longrightarrow> s1 = snd (match (incoming (market_price is_bid) q s) is_bid (bump s))"
    unfolding s1 by (simp add: add_market_is_match)
  ultimately show ?thesis using older by blast
qed

theorem market_orders_never_rest_witness:
  "add_market 250 True (run [Add_limit 100 100 False] empty_book) = (2, drained) \<and>
   bids drained = [] \<and> asks drained = [] \<and>
   trades drained = [\<lparr>buyer_id = 2, seller_id = 1, price_t = 100, qty_t = 100\<rparr>] \<and>
   2 \<notin> dom (order_index (run [Add_limit 101 10 False, Cancel 2] drained)) \<and>
   3 \<in> dom (order_index (run [Add_limit 101 10 False, Cancel 2] drained))"
proof -
  have calls: "length [Add_limit 100 100 False] + 1 + length [Add_limit 101 10 False, Cancel 2]
      < 2 ^ 64 - 1"
    by simp
  have m: "add_market 250 True (run [Add_limit 100 100 False] empty_book) = (2, drained)"
    by (simp add: drained_def book_eval)
  have e: "bids drained = []" "asks drained = []"
    "trades drained = [\<lparr>buyer_id = 2, seller_id = 1, price_t = 100, qty_t = 100\<rparr>]"
    "3 \<in> dom (order_index (run [Add_limit 101 10 False, Cancel 2] drained))"
    by (simp_all add: drained_def book_eval)
  from market_orders_never_rest [OF calls refl m]
  have "2 \<notin> dom (order_index (run [Add_limit 101 10 False, Cancel 2] drained))"
    by blast
  with m e show ?thesis by simp
qed

subsection \<open>Where a limit order rests\<close>

lemma queue_at_push_back_less:
  "sorted_wrt (<) (map fst book) \<Longrightarrow>
   queue_at (push_back_at (<) p x book) k = (if k = p then queue_at book p @ [x] else queue_at book k)"
proof (induction book)
  case Nil
  then show ?case by (simp add: queue_at_def)
next
  case (Cons a book)
  obtain k0 lvl where a: "a = (k0, lvl)" by (cases a)
  from Cons.prems have above: "\<forall>j\<in>fst ` set book. k0 < j" and so: "sorted_wrt (<) (map fst book)"
    unfolding a by auto
  have absent: "queue_at book p = []" if "p \<le> k0"
  proof (rule queue_at_absent)
    from above that show "p \<notin> fst ` set book" by auto
  qed
  from Cons.IH [OF so] absent show ?case
    unfolding a by (auto simp: queue_at_Cons)
qed

lemma queue_at_push_back_greater:
  "sorted_wrt (>) (map fst book) \<Longrightarrow>
   queue_at (push_back_at (>) p x book) k = (if k = p then queue_at book p @ [x] else queue_at book k)"
proof (induction book)
  case Nil
  then show ?case by (simp add: queue_at_def)
next
  case (Cons a book)
  obtain k0 lvl where a: "a = (k0, lvl)" by (cases a)
  from Cons.prems have below: "\<forall>j\<in>fst ` set book. j < k0" and so: "sorted_wrt (>) (map fst book)"
    unfolding a by auto
  have absent: "queue_at book p = []" if "k0 \<le> p"
  proof (rule queue_at_absent)
    from below that show "p \<notin> fst ` set book" by auto
  qed
  from Cons.IH [OF so] absent show ?case
    unfolding a by (auto simp: queue_at_Cons)
qed

lemma rest_order_queue:
  assumes "invar s"
  shows "queue_at (side b (rest_order b x s)) k =
    (if k = price_o x then queue_at (side b s) (price_o x) @ [x] else queue_at (side b s) k)"
proof (cases b)
  case True
  from assms have "sorted_wrt (>) (map fst (bids s))" by (simp add: invar_def)
  from queue_at_push_back_greater [OF this] True show ?thesis
    by (simp add: side_def rest_order_def)
next
  case False
  from assms have "sorted_wrt (<) (map fst (asks s))" by (simp add: invar_def)
  from queue_at_push_back_less [OF this] False show ?thesis
    by (simp add: side_def rest_order_def)
qed

section \<open>No validation of the price\<close>

lemma match_own_side:
  assumes "match inc b s = (inc', s')"
  shows "side b s' = side b s"
proof (cases b)
  case True
  with assms have "match inc True s = (inc', s')" by simp
  then obtain book' idx' tr' where
    "s' = s\<lparr>asks := book', order_index := idx', trades := tr'\<rparr>"
    by (rule match_bid_cases)
  with True show ?thesis by (simp add: side_def)
next
  case False
  with assms have "match inc False s = (inc', s')" by simp
  then obtain book' idx' tr' where
    "s' = s\<lparr>bids := book', order_index := idx', trades := tr'\<rparr>"
    by (rule match_ask_cases)
  with False show ?thesis by (simp add: side_def)
qed

lemma order_index_rest_order [simp]:
  "order_index (rest_order b x s) = (order_index s)(id_o x \<mapsto> (price_o x, b))"
  by (simp add: rest_order_def)



subsection \<open>A price that is not a number\<close>

lemma less_double_simps [simp]:
  "Number a < Number b \<longleftrightarrow> a < b"
  "\<not> NaN < x" "\<not> x < NaN"
  by (simp_all add: less_double_def split: double.splits)

lemma less_eq_double_simps [simp]:
  "Number a \<le> Number b \<longleftrightarrow> a \<le> b"
  "\<not> NaN \<le> x" "\<not> x \<le> NaN"
  by (simp_all add: less_eq_double_def split: double.splits)



lemma num_order_sel [simp]:
  "id_d (num_order x) = id_o x" "price_d (num_order x) = Number (price_o x)"
  "qty_d (num_order x) = qty_o x"
  "(num_order x)\<lparr>qty_d := q\<rparr> = num_order (x\<lparr>qty_o := q\<rparr>)"
  by (simp_all add: num_order_def)


lemma num_trade_emplace [simp]:
  "emplace_trade_d b (num_order inc) (num_order r) (Number p) q = num_trade (emplace_trade b inc r p q)"
  by (simp add: emplace_trade_d_def emplace_trade_def num_trade_def)


lemma crosses_numbers [simp]: "crosses_d b (Number k) (Number p) = crosses b k p"
  by (simp add: crosses_d_def crosses_def)

lemma num_ladder_simps [simp]:
  "num_ladder [] = []"
  "num_ladder ((p, lvl) # book) = (Number p, map num_order lvl) # num_ladder book"
  by (simp_all add: num_ladder_def)


lemma num_book_sel [simp]:
  "bids_d (num_book s) = num_ladder (bids s)" "asks_d (num_book s) = num_ladder (asks s)"
  "order_index_d (num_book s) = num_index (order_index s)"
  "trades_d (num_book s) = map num_trade (trades s)" "next_id_d (num_book s) = next_id s"
  by (simp_all add: num_book_def)








section \<open>The index and the resting orders\<close>

lemma match_level_popped:
  "match_level b inc p lvl idx tr = (inc', lvl', idx', tr') \<Longrightarrow>
   \<exists>k. map id_o lvl' = drop k (map id_o lvl) \<and>
       idx' = (\<lambda>i. if i \<in> set (take k (map id_o lvl)) then None else idx i)"
proof (induction lvl arbitrary: inc idx tr)
  case Nil
  then show ?case by simp
next
  case (Cons r rest)
  consider (idle) "qty_o inc \<le> 0"
    | (fill) "0 < qty_o inc" "qty_o r \<le> qty_o inc"
    | (part) "0 < qty_o inc" "qty_o inc < qty_o r"
    by linarith
  then show ?case
  proof cases
    case idle
    with Cons.prems have "lvl' = r # rest" "idx' = idx" by (simp_all add: match_level_Cons)
    then show ?thesis by (intro exI [of _ 0]) simp
  next
    case fill
    with Cons.prems have
      "match_level b (inc\<lparr>qty_o := qty_o inc - qty_o r\<rparr>) p rest (idx(id_o r := None))
         (tr @ [emplace_trade b inc r p (qty_o r)]) = (inc', lvl', idx', tr')"
      by (simp add: match_level_Cons)
    from Cons.IH [OF this] obtain k where k: "map id_o lvl' = drop k (map id_o rest)"
      "idx' = (\<lambda>i. if i \<in> set (take k (map id_o rest)) then None else (idx(id_o r := None)) i)"
      by blast
    show ?thesis
    proof (intro exI [of _ "Suc k"] conjI)
      show "map id_o lvl' = drop (Suc k) (map id_o (r # rest))" using k(1) by simp
      show "idx' = (\<lambda>i. if i \<in> set (take (Suc k) (map id_o (r # rest))) then None else idx i)"
        unfolding k(2) by (rule ext) simp
    qed
  next
    case part
    with Cons.prems have "lvl' = r\<lparr>qty_o := qty_o r - qty_o inc\<rparr> # rest" "idx' = idx"
      by (simp_all add: match_level_Cons)
    then show ?thesis by (intro exI [of _ 0]) simp
  qed
qed

lemma match_level_survivors:
  assumes "match_level b inc p lvl idx tr = (inc', lvl', idx', tr')"
    and "distinct (map id_o lvl)"
  shows "distinct (map id_o lvl')" and "i \<in> id_o ` set lvl' \<Longrightarrow> idx' i = idx i"
proof -
  from match_level_popped [OF assms(1)] obtain k where k: "map id_o lvl' = drop k (map id_o lvl)"
    "idx' = (\<lambda>i. if i \<in> set (take k (map id_o lvl)) then None else idx i)"
    by blast
  from assms(2) show "distinct (map id_o lvl')" unfolding k(1) by simp
  assume "i \<in> id_o ` set lvl'"
  then have "i \<in> set (drop k (map id_o lvl))" using k(1) by (metis set_map)
  with assms(2) have "i \<notin> set (take k (map id_o lvl))"
    using set_take_disj_set_drop_if_distinct [of "map id_o lvl" k k] by auto
  then show "idx' i = idx i" by (simp add: k(2))
qed

lemma rests_key: "rests book i p \<Longrightarrow> p \<in> fst ` set book"
  by (force simp: rests_def)

lemma match_book_complete:
  assumes "match_book b inc book idx tr = (inc', book', idx', tr')"
    and "\<And>i p. rests book i p \<Longrightarrow> idx i = Some (p, c)"
    and "\<forall>(p, lvl)\<in>set book. distinct (map id_o lvl)"
    and "distinct (map fst book)"
  shows "(\<forall>i p. rests book' i p \<longrightarrow> idx' i = Some (p, c)) \<and>
    (\<forall>(p, lvl)\<in>set book'. distinct (map id_o lvl))"
  using assms
proof (induction inc book idx tr rule: match_book_induct [where b = b])
  case (Nil inc idx tr)
  then show ?case by simp
next
  case (Stop inc p lvl book idx tr)
  from Stop.prems(1) Stop.hyps(2) have "book' = (p, lvl) # book" "idx' = idx" by simp_all
  with Stop.prems(2,3) show ?case by blast
next
  case (Erase inc p lvl book idx tr inc1 idx1 tr1)
  from Erase.prems(1) Erase.hyps(4) have r: "match_book b inc1 book idx1 tr1 = (inc', book', idx', tr')"
    by simp
  from Erase.prems(4) have d: "distinct (map fst book)" "p \<notin> fst ` set book" by simp_all
  have K1: "idx1 i = Some (q, c)" if "rests book i q" for i q
  proof -
    from that have "rests ((p, lvl) # book) i q" by (simp add: rests_Cons)
    then have ix: "idx i = Some (q, c)" by (rule Erase.prems(2))
    have "i \<notin> id_o ` set lvl"
    proof
      assume "i \<in> id_o ` set lvl"
      then have "rests ((p, lvl) # book) i p" by (simp add: rests_Cons)
      then have "idx i = Some (p, c)" by (rule Erase.prems(2))
      with ix have "q = p" by simp
      with that d(2) show False by (force simp: rests_def)
    qed
    from match_level_index_other [OF Erase.hyps(3) this] ix show ?thesis by simp
  qed
  from Erase.prems(3) have K2: "\<forall>(p, lvl)\<in>set book. distinct (map id_o lvl)" by simp
  from Erase.IH [OF r K1 K2 d(1)] show ?case by simp
next
  case (Keep inc p lvl book idx tr inc1 lvl1 idx1 tr1)
  from Keep.prems(1) Keep.hyps(6) have eq: "book' = (p, lvl1) # book" "idx' = idx1" by simp_all
  from Keep.prems(4) have d: "p \<notin> fst ` set book" by simp
  from Keep.prems(3) have dl: "distinct (map id_o lvl)" "\<forall>(p, lvl)\<in>set book. distinct (map id_o lvl)"
    by simp_all
  note S = match_level_survivors [OF Keep.hyps(3) dl(1)]
  have "idx1 i = Some (q, c)" if "rests ((p, lvl1) # book) i q" for i q
  proof -
    from that consider "q = p" "i \<in> id_o ` set lvl1" | "rests book i q"
      by (auto simp: rests_Cons)
    then show ?thesis
    proof cases
      case 1
      from match_level_ids [OF Keep.hyps(3)] 1(2) have "i \<in> id_o ` set lvl" by blast
      then have "rests ((p, lvl) # book) i p" by (simp add: rests_Cons)
      then have "idx i = Some (p, c)" by (rule Keep.prems(2))
      with S(2) [OF 1(2)] 1(1) show ?thesis by simp
    next
      case 2
      then have "rests ((p, lvl) # book) i q" by (simp add: rests_Cons)
      then have ix: "idx i = Some (q, c)" by (rule Keep.prems(2))
      have "i \<notin> id_o ` set lvl"
      proof
        assume "i \<in> id_o ` set lvl"
        then have "rests ((p, lvl) # book) i p" by (simp add: rests_Cons)
        then have "idx i = Some (p, c)" by (rule Keep.prems(2))
        with ix have "q = p" by simp
        with 2 d show False by (force simp: rests_def)
      qed
      from match_level_index_other [OF Keep.hyps(3) this] ix show ?thesis by simp
    qed
  qed
  with S(1) dl(2) show ?case unfolding eq by simp
qed


lemma match_book_complete_both:
  assumes r: "match_book b inc opp idx tr = (inc', opp', idx', tr')"
    and opp: "\<And>i p. rests opp i p \<Longrightarrow> idx i = Some (p, co)"
    and own: "\<And>i p. rests own i p \<Longrightarrow> idx i = Some (p, cw)"
    and ne: "co \<noteq> cw"
    and dl: "\<forall>(p, lvl)\<in>set opp. distinct (map id_o lvl)"
    and dk: "distinct (map fst opp)"
  shows "\<And>i p. rests opp' i p \<Longrightarrow> idx' i = Some (p, co)"
    and "\<And>i p. rests own i p \<Longrightarrow> idx' i = Some (p, cw)"
    and "\<forall>(p, lvl)\<in>set opp'. distinct (map id_o lvl)"
proof -
  note C = match_book_complete [OF r opp dl dk]
  from C show "\<And>i p. rests opp' i p \<Longrightarrow> idx' i = Some (p, co)" by blast
  from C show "\<forall>(p, lvl)\<in>set opp'. distinct (map id_o lvl)" by blast
  fix i p assume o: "rests own i p"
  then have ix: "idx i = Some (p, cw)" by (rule own)
  have "\<forall>k. \<not> rests opp i k"
  proof (intro allI notI)
    fix k assume "rests opp i k"
    then have "idx i = Some (k, co)" by (rule opp)
    with ix ne show False by simp
  qed
  with match_book_index [OF r] have "idx' i = idx i" by blast
  with ix show "idx' i = Some (p, cw)" by simp
qed

lemma indexed_onceI:
  assumes "\<And>i p. rests (bids s) i p \<Longrightarrow> order_index s i = Some (p, True)"
    and "\<And>i p. rests (asks s) i p \<Longrightarrow> order_index s i = Some (p, False)"
    and "\<forall>(p, lvl)\<in>set (bids s). distinct (map id_o lvl)"
    and "\<forall>(p, lvl)\<in>set (asks s). distinct (map id_o lvl)"
  shows "indexed_once s"
  unfolding indexed_once_def
proof (intro conjI allI impI)
  fix c i p assume "rests (side c s) i p"
  with assms(1,2) show "order_index s i = Some (p, c)" by (cases c) (simp_all add: side_def)
next
  fix c from assms(3,4) show "\<forall>(p, lvl)\<in>set (side c s). distinct (map id_o lvl)"
    by (cases c) (simp_all add: side_def)
qed

lemma indexed_onceD:
  assumes "indexed_once s"
  shows "\<And>i p. rests (bids s) i p \<Longrightarrow> order_index s i = Some (p, True)"
    and "\<And>i p. rests (asks s) i p \<Longrightarrow> order_index s i = Some (p, False)"
    and "\<forall>(p, lvl)\<in>set (bids s). distinct (map id_o lvl)"
    and "\<forall>(p, lvl)\<in>set (asks s). distinct (map id_o lvl)"
proof -
  from assms have a: "\<And>c i p. rests (side c s) i p \<Longrightarrow> order_index s i = Some (p, c)"
    and d: "\<And>c. \<forall>(p, lvl)\<in>set (side c s). distinct (map id_o lvl)"
    unfolding indexed_once_def by blast+
  from a [of True] show "\<And>i p. rests (bids s) i p \<Longrightarrow> order_index s i = Some (p, True)"
    by (simp add: side_def)
  from a [of False] show "\<And>i p. rests (asks s) i p \<Longrightarrow> order_index s i = Some (p, False)"
    by (simp add: side_def)
  from d [of True] show "\<forall>(p, lvl)\<in>set (bids s). distinct (map id_o lvl)" by (simp add: side_def)
  from d [of False] show "\<forall>(p, lvl)\<in>set (asks s). distinct (map id_o lvl)" by (simp add: side_def)
qed

lemma match_indexed_once:
  assumes inv: "invar s" and io: "indexed_once s" and m: "match inc b s = (inc', s')"
  shows "indexed_once s'"
proof (cases b)
  case True
  with m have "match inc True s = (inc', s')" by simp
  then obtain book' idx' tr' where
    r: "match_book True inc (asks s) (order_index s) (trades s) = (inc', book', idx', tr')"
    and s': "s' = s\<lparr>asks := book', order_index := idx', trades := tr'\<rparr>"
    by (rule match_bid_cases)
  note D = indexed_onceD [OF io]
  from invar_side_distinct [OF inv, of False] have dk: "distinct (map fst (asks s))"
    by (simp add: side_def)
  have ne: "False \<noteq> True" by simp
  note B = match_book_complete_both [OF r D(2) D(1) ne D(4) dk]
  show ?thesis
    by (rule indexed_onceI) (use B D(3) in \<open>simp_all add: s'\<close>)
next
  case False
  with m have "match inc False s = (inc', s')" by simp
  then obtain book' idx' tr' where
    r: "match_book False inc (bids s) (order_index s) (trades s) = (inc', book', idx', tr')"
    and s': "s' = s\<lparr>bids := book', order_index := idx', trades := tr'\<rparr>"
    by (rule match_ask_cases)
  note D = indexed_onceD [OF io]
  from invar_side_distinct [OF inv, of True] have dk: "distinct (map fst (bids s))"
    by (simp add: side_def)
  have ne: "True \<noteq> False" by simp
  note B = match_book_complete_both [OF r D(1) D(2) ne D(3) dk]
  show ?thesis
    by (rule indexed_onceI) (use B D(4) in \<open>simp_all add: s'\<close>)
qed


lemma push_back_at_members:
  assumes tri: "\<And>a b. \<not> lt a b \<Longrightarrow> \<not> lt b a \<Longrightarrow> a = b"
    and mem: "(p, l) \<in> set (push_back_at lt p0 x book)"
  shows "(p, l) \<in> set book \<or> (p = p0 \<and> (l = [x] \<or> (\<exists>l0. (p0, l0) \<in> set book \<and> l = l0 @ [x])))"
  using mem
proof (induction book)
  case Nil
  then show ?case by simp
next
  case (Cons a book)
  obtain k lvl where a: "a = (k, lvl)" by (cases a)
  have "k = p0" if "\<not> lt k p0" "\<not> lt p0 k"
    using that tri by blast
  with Cons show ?case unfolding a by (auto split: if_splits)
qed

lemma rest_order_indexed_once:
  assumes io: "indexed_once s" and fresh: "\<And>c k. \<not> rests (side c s) (id_o x) k"
  shows "indexed_once (rest_order b x s)"
  unfolding indexed_once_def
proof (intro conjI allI impI)
  from io have a: "\<And>c i p. rests (side c s) i p \<Longrightarrow> order_index s i = Some (p, c)"
    and d: "\<And>c. \<forall>(p, lvl)\<in>set (side c s). distinct (map id_o lvl)"
    unfolding indexed_once_def by blast+
  {
    fix c i p assume "rests (side c (rest_order b x s)) i p"
    then consider "rests (side c s) i p" | "c = b" "i = id_o x" "p = price_o x"
      by (auto simp: rest_order_rests)
    then show "order_index (rest_order b x s) i = Some (p, c)"
    proof cases
      case 1
      with fresh have "i \<noteq> id_o x" by blast
      with a [OF 1] show ?thesis by (simp add: rest_order_def)
    next
      case 2
      then show ?thesis by (simp add: rest_order_def)
    qed
  }
  fix c
  show "\<forall>(p, lvl)\<in>set (side c (rest_order b x s)). distinct (map id_o lvl)"
  proof (cases "c = b")
    case False
    then have "side c (rest_order b x s) = side c s"
      by (cases b; cases c) (simp_all add: side_def rest_order_def)
    with d [of c] show ?thesis by simp
  next
    case True
    have own: "side b (rest_order b x s) =
        push_back_at (if b then (>) else (<)) (price_o x) x (side b s)"
      by (cases b) (simp_all add: side_def rest_order_def)
    have tri: "\<not> (if b then (>) else (<)) u v \<Longrightarrow> \<not> (if b then (>) else (<)) v u \<Longrightarrow> u = v"
      for u v :: real
      by (cases b) simp_all
    have "distinct (map id_o l)" if "(p, l) \<in> set (side b (rest_order b x s))" for p l
    proof -
      from push_back_at_members [OF tri that [unfolded own]]
      consider "(p, l) \<in> set (side b s)" | "l = [x]"
        | l0 where "(price_o x, l0) \<in> set (side b s)" "l = l0 @ [x]"
        by blast
      then show ?thesis
      proof cases
        case 1
        with d [of b] show ?thesis by blast
      next
        case 2
        then show ?thesis by simp
      next
        case 3
        from 3(1) d [of b] have "distinct (map id_o l0)" by blast
        moreover have "id_o x \<notin> id_o ` set l0"
        proof
          assume "id_o x \<in> id_o ` set l0"
          with 3(1) have "rests (side b s) (id_o x) (price_o x)" by (auto simp: rests_def)
          with fresh show False by blast
        qed
        ultimately show ?thesis by (simp add: 3(2))
      qed
    qed
    with True show ?thesis by blast
  qed
qed

lemma set_level_members:
  "distinct (map fst book) \<Longrightarrow> (k, l) \<in> set (set_level p l' book) \<Longrightarrow>
   (k \<noteq> p \<and> (k, l) \<in> set book) \<or> (k = p \<and> l = l')"
proof (induction p l' book rule: set_level.induct)
  case (1 p l)
  then show ?case by simp
next
  case (2 p l' k0 lvl book)
  then show ?case by (force split: if_splits)
qed

lemma erase_level_members:
  "distinct (map fst book) \<Longrightarrow> (k, l) \<in> set (erase_level p book) \<Longrightarrow>
   k \<noteq> p \<and> (k, l) \<in> set book"
proof (induction p book rule: erase_level.induct)
  case (1 p)
  then show ?case by simp
next
  case (2 p k0 lvl book)
  then show ?case by (force split: if_splits)
qed

lemma erase_id_distinct:
  assumes "erase_id i lvl = Some lvl'" and "distinct (map id_o lvl)"
  shows "distinct (map id_o lvl')" and "i \<notin> id_o ` set lvl'"
proof -
  from scan_steps_position [OF assms(1)] obtain j where j: "j < length lvl" "id_o (lvl ! j) = i"
    "lvl' = take j lvl @ drop (Suc j) lvl" by blast
  from assms(2) have d: "distinct (map id_o (take j lvl @ lvl ! j # drop (Suc j) lvl))"
    using j(1) by (simp add: id_take_nth_drop [symmetric])
  then show "distinct (map id_o lvl')" unfolding j(3) by auto
  from d j(2) show "i \<notin> id_o ` set lvl'" unfolding j(3) by auto
qed

lemma cancel_in_members:
  assumes c: "cancel_in i p book = Some book'"
    and dk: "distinct (map fst book)"
    and dl: "\<forall>(k, l)\<in>set book. distinct (map id_o l)"
    and mem: "(k, l) \<in> set book'"
  shows "distinct (map id_o l) \<and> ((k \<noteq> p \<and> (k, l) \<in> set book) \<or> (k = p \<and> i \<notin> id_o ` set l))"
proof -
  from c obtain lvl lvl' where
    m: "map_of book p = Some lvl" and e: "erase_id i lvl = Some lvl'"
    and b': "book' = (if lvl' = [] then erase_level p book else set_level p lvl' book)"
    by (auto simp: cancel_in_def split: option.splits)
  from map_of_SomeD [OF m] dl have "distinct (map id_o lvl)" by blast
  note E = erase_id_distinct [OF e this]
  show ?thesis
  proof (cases "lvl' = []")
    case True
    with mem b' have "(k, l) \<in> set (erase_level p book)" by simp
    from erase_level_members [OF dk this] dl show ?thesis by blast
  next
    case False
    with mem b' have "(k, l) \<in> set (set_level p lvl' book)" by simp
    from set_level_members [OF dk this] consider "k \<noteq> p" "(k, l) \<in> set book" | "k = p" "l = lvl'"
      by blast
    then show ?thesis
    proof cases
      case 1
      with dl show ?thesis by blast
    next
      case 2
      with E show ?thesis by simp
    qed
  qed
qed

lemma cancel_indexed_once:
  assumes inv: "invar s" and io: "indexed_once s"
  shows "indexed_once (snd (cancel i s))"
proof (cases "order_index s i")
  case None
  with io show ?thesis by (simp add: cancel_def)
next
  case (Some v)
  obtain p c where v: "v = (p, c)" by (cases v)
  from Some v have ix: "order_index s i = Some (p, c)" by simp
  from cancel_in_finds [OF inv ix] obtain book' where
    ci: "cancel_in i p (side c s) = Some book'" by auto
  from io have a: "\<And>d j k. rests (side d s) j k \<Longrightarrow> order_index s j = Some (k, d)"
    and d: "\<And>d. \<forall>(k, l)\<in>set (side d s). distinct (map id_o l)"
    unfolding indexed_once_def by blast+
  note dk = invar_side_distinct [OF inv, of c]
  note M = cancel_in_members [OF ci dk d [of c]]
  let ?s' = "snd (cancel i s)"
  have s': "side c ?s' = book'" "side (\<not> c) ?s' = side (\<not> c) s"
    "order_index ?s' = (order_index s)(i := None)"
    using ix ci by (cases c; simp add: cancel_def side_def)+
  have gone: "\<not> rests book' i k" for k
  proof
    assume "rests book' i k"
    then obtain l where l: "(k, l) \<in> set book'" "i \<in> id_o ` set l" by (auto simp: rests_def)
    from M [OF l(1)] l(2) have "k \<noteq> p" "(k, l) \<in> set (side c s)" by auto
    with l(2) have "rests (side c s) i k" by (auto simp: rests_def)
    from a [OF this] ix \<open>k \<noteq> p\<close> show False by simp
  qed
  have older: "rests (side c s) j k" if "rests book' j k" for j k
  proof -
    from that obtain l where l: "(k, l) \<in> set book'" "j \<in> id_o ` set l" by (auto simp: rests_def)
    from M [OF l(1)] consider "(k, l) \<in> set (side c s)" | "k = p" by blast
    then show ?thesis
    proof cases
      case 1
      with l(2) show ?thesis by (auto simp: rests_def)
    next
      case 2
      from inv have "levels_ok (side c s)" "sorted_wrt (if c then (>) else (<)) (map fst (side c s))"
        by (cases c; simp add: invar_def side_def)+
      from cancel_in_ladder(4) [OF ci this that] show ?thesis .
    qed
  qed
  show ?thesis
    unfolding indexed_once_def
  proof (intro conjI allI impI)
    fix e j k assume r: "rests (side e ?s') j k"
    show "order_index ?s' j = Some (k, e)"
    proof (cases "e = c")
      case True
      with r have rb: "rests book' j k" by (simp add: s'(1))
      with gone have "j \<noteq> i" by blast
      with a [OF older [OF rb]] True show ?thesis by (simp add: s'(3))
    next
      case False
      then have "e = (\<not> c)" by simp
      with r have "rests (side e s) j k" by (simp add: s'(2))
      from a [OF this] have "order_index s j = Some (k, e)" .
      moreover from this ix False have "j \<noteq> i" by auto
      ultimately show ?thesis by (simp add: s'(3))
    qed
  next
    fix e
    show "\<forall>(k, l)\<in>set (side e ?s'). distinct (map id_o l)"
    proof (cases "e = c")
      case True
      with M show ?thesis by (auto simp: s'(1))
    next
      case False
      then have "e = (\<not> c)" by simp
      with d [of e] show ?thesis by (simp add: s'(2))
    qed
  qed
qed


lemma indexed_once_bump [simp]: "indexed_once (bump s) = indexed_once s"
  by (simp add: indexed_once_def bump_def side_def)

lemma indexed_once_empty: "indexed_once empty_book"
  by (simp add: indexed_once_def empty_book_def side_def)

lemma step_indexed_once:
  assumes inv: "invar s" and below: "ids_below s" and io: "indexed_once s"
  shows "indexed_once (step c s)"
proof (cases c)
  case (Add_limit p q b)
  show ?thesis
  proof (cases "0 < q")
    case False
    with io show ?thesis by (simp add: Add_limit add_limit_def)
  next
    case True
    obtain inc' s1 where m: "match (incoming p q s) b (bump s) = (inc', s1)"
      by (cases "match (incoming p q s) b (bump s)")
    from inv io have "invar (bump s)" "indexed_once (bump s)" by simp_all
    then have io1: "indexed_once s1" using m by (rule match_indexed_once)
    from match_same_order [OF m] have id: "id_o inc' = next_id s" by (simp add: incoming_def)
    have fresh: "\<not> rests (side d s1) (id_o inc') k" for d k
    proof
      assume "rests (side d s1) (id_o inc') k"
      with m have "rests (side d (bump s)) (id_o inc') k" by (rule match_rests)
      then have "rests (side d s) (next_id s) k" by (simp add: id)
      with below show False by (auto simp: ids_below_def)
    qed
    from io1 rest_order_indexed_once [OF io1 fresh, of b] show ?thesis
      by (simp add: Add_limit add_limit_unfold [OF True m])
  qed
next
  case (Add_market q b)
  show ?thesis
  proof (cases "0 < q")
    case False
    with io show ?thesis by (simp add: Add_market add_market_def)
  next
    case True
    let ?inc = "incoming (market_price b) q s"
    obtain inc' s1 where m: "match ?inc b (bump s) = (inc', s1)"
      by (cases "match ?inc b (bump s)")
    from inv io have "invar (bump s)" "indexed_once (bump s)" by simp_all
    then have "indexed_once s1" using m by (rule match_indexed_once)
    then show ?thesis by (simp add: Add_market add_market_is_match [OF True] m)
  qed
next
  case (Cancel i)
  from cancel_indexed_once [OF inv io] show ?thesis by (simp add: Cancel)
next
  case Clear
  show ?thesis by (simp add: Clear clear_def indexed_once_def side_def)
qed

lemma run_indexed_once:
  "invar s \<Longrightarrow> ids_below s \<Longrightarrow> indexed_once s \<Longrightarrow> unat (next_id s) + length cs < 2 ^ 64 \<Longrightarrow>
   indexed_once (run cs s)"
proof (induction cs arbitrary: s)
  case Nil
  then show ?case by simp
next
  case (Cons c cs)
  from Cons.prems(4) have room: "unat (next_id s) + 1 < 2 ^ 64" by simp
  note S = step_ids_below [OF Cons.prems(1,2) room, of c]
  from S(2) Cons.prems(4) have "unat (next_id (step c s)) + length cs < 2 ^ 64" by simp
  from Cons.IH [OF step_invar [OF Cons.prems(1)] S(1) step_indexed_once [OF Cons.prems(1,2,3)] this]
  show ?case by simp
qed

text \<open>While \<open>next_id\<close> has not wrapped around, every resting order is indexed at the price
  and side where it rests, and no queue holds an id twice.\<close>

lemma early_indexed_once:
  assumes "length cs < 2 ^ 64 - 1"
  shows "indexed_once (run cs empty_book)"
proof -
  have "unat (next_id empty_book) = 1" by (simp add: empty_book_def)
  with assms run_indexed_once [OF invar_empty ids_below_empty indexed_once_empty, of cs]
  show ?thesis by simp
qed

section \<open>Cancel semantics\<close>

lemma cancel_absent: "order_index s i = None \<Longrightarrow> cancel i s = (False, s)"
  by (simp add: cancel_def)

lemma cancel_erases: "order_index (snd (cancel i s)) i = None"
  by (auto simp: cancel_def split: option.splits prod.splits)

text \<open>
  Claim C8. In every reachable state \<open>cancel i\<close> succeeds exactly when \<open>i\<close> is a key of
  the order index; an indexed id rests in the ladder and at the price that its index
  entry names, and, in a run in which \<open>next_id\<close> has not wrapped around (fewer than
  \<open>2\<^sup>6\<^sup>4 - 1\<close> calls), every id that rests is indexed there; a failed cancel returns the
  state unchanged; and cancelling the same id again fails.
\<close>

theorem cancel_semantics:
  assumes "s = run cs empty_book"
  shows "(fst (cancel i s) \<longleftrightarrow> i \<in> dom (order_index s)) \<and>
    (i \<in> dom (order_index s) \<longrightarrow>
       (\<exists>p c. order_index s i = Some (p, c) \<and> rests (side c s) i p)) \<and>
    (length cs < 2 ^ 64 - 1 \<longrightarrow>
       (\<forall>p c. rests (side c s) i p \<longrightarrow> order_index s i = Some (p, c))) \<and>
    (\<not> fst (cancel i s) \<longrightarrow> snd (cancel i s) = s) \<and>
    \<not> fst (cancel i (snd (cancel i s)))"
proof -
  have inv: "invar s" unfolding assms by (rule run_invar [OF invar_empty])
  have twice: "\<not> fst (cancel i (snd (cancel i s)))"
    by (simp add: cancel_absent [OF cancel_erases])
  have complete: "order_index s i = Some (p, c)" if "length cs < 2 ^ 64 - 1" "rests (side c s) i p" for p c
    using early_indexed_once [OF that(1)] that(2) unfolding assms indexed_once_def by blast
  show ?thesis
  proof (cases "order_index s i")
    case None
    with twice complete show ?thesis by (simp add: cancel_absent domIff) blast
  next
    case (Some a)
    obtain p c where a: "a = (p, c)" by (cases a)
    from Some a have ix: "order_index s i = Some (p, c)" by simp
    from cancel_in_finds [OF inv ix] obtain book' where
      ci: "cancel_in i p (side c s) = Some book'" by auto
    from ix ci have "fst (cancel i s)"
      by (cases c) (simp_all add: cancel_def side_def)
    moreover from inv ix have "rests (side c s) i p" by (simp add: invar_def)
    ultimately show ?thesis using twice ix complete by auto
  qed
qed

theorem cancel_semantics_witness:
  "three_bids =
     run [Add_limit 99 100 True, Add_limit 99.5 100 True, Add_limit 100.5 100 False] empty_book \<and>
   fst (cancel 2 three_bids) \<and> 2 \<in> dom (order_index three_bids) \<and>
   \<not> fst (cancel 2 (snd (cancel 2 three_bids))) \<and>
   \<not> fst (cancel 999 three_bids) \<and> snd (cancel 999 three_bids) = three_bids"
proof -
  have ix: "2 \<in> dom (order_index three_bids)" "999 \<notin> dom (order_index three_bids)"
    by (simp_all add: three_bids_def book_eval)
  from cancel_semantics [OF three_bids_def, of 2] cancel_semantics [OF three_bids_def, of 999] ix
    three_bids_def
  show ?thesis by blast
qed

section \<open>Queues in submission order\<close>

text \<open>
  \<open>match\<close> pops from the front of a queue, \<open>add_limit\<close> appends an order whose id is
  above every id that rests, and \<open>cancel\<close> takes one order out: ids grow from the front
  of every queue to its tail in every state that fewer than \<open>2\<^sup>6\<^sup>4 - 1\<close> calls reach.
\<close>

lemma ascending_drop:
  "ascending l \<Longrightarrow> map id_o l' = drop k (map id_o l) \<Longrightarrow> ascending l'"
  unfolding ascending_def by (simp add: drop_map [symmetric] sorted_wrt_drop del: drop_map)

lemma match_book_suffix:
  "match_book b inc book idx tr = (inc', book', idx', tr') \<Longrightarrow> (p, l') \<in> set book' \<Longrightarrow>
   \<exists>l k. (p, l) \<in> set book \<and> map id_o l' = drop k (map id_o l)"
proof (induction inc book idx tr rule: match_book_induct [where b = b])
  case (Nil inc idx tr)
  then show ?case by simp
next
  case (Stop inc p0 lvl book idx tr)
  from Stop.prems Stop.hyps(2) have "(p, l') \<in> set ((p0, lvl) # book)" by simp
  then show ?case by (intro exI [of _ l'] exI [of _ 0]) simp
next
  case (Erase inc p0 lvl book idx tr inc1 idx1 tr1)
  from Erase.prems(1) Erase.hyps(4) have r: "match_book b inc1 book idx1 tr1 = (inc', book', idx', tr')"
    by simp
  from Erase.IH [OF r Erase.prems(2)] show ?case by auto
next
  case (Keep inc p0 lvl book idx tr inc1 lvl1 idx1 tr1)
  from Keep.prems(1) Keep.hyps(6) have eq: "book' = (p0, lvl1) # book" by simp
  from Keep.prems(2) consider "p = p0" "l' = lvl1" | "(p, l') \<in> set book" unfolding eq by auto
  then show ?case
  proof cases
    case 1
    from match_level_popped [OF Keep.hyps(3)] obtain k where
      "map id_o lvl1 = drop k (map id_o lvl)" by blast
    with 1 show ?thesis by (intro exI [of _ lvl] exI [of _ k]) simp
  next
    case 2
    then show ?thesis by (intro exI [of _ l'] exI [of _ 0]) simp
  qed
qed

lemma match_book_ascending:
  assumes "match_book b inc book idx tr = (inc', book', idx', tr')"
    and "\<forall>(p, l)\<in>set book. ascending l"
  shows "\<forall>(p, l)\<in>set book'. ascending l"
proof -
  have "ascending l'" if "(p, l') \<in> set book'" for p l'
  proof -
    from match_book_suffix [OF assms(1) that] obtain l k where
      l: "(p, l) \<in> set book" "map id_o l' = drop k (map id_o l)" by blast
    from l(1) assms(2) have "ascending l" by blast
    then show ?thesis using l(2) by (rule ascending_drop)
  qed
  then show ?thesis by blast
qed

lemma ascending_idsI:
  assumes "\<forall>(p, l)\<in>set (bids s). ascending l" and "\<forall>(p, l)\<in>set (asks s). ascending l"
  shows "ascending_ids s"
  unfolding ascending_ids_def
proof
  fix c from assms show "\<forall>(p, l)\<in>set (side c s). ascending l"
    by (cases c) (simp_all add: side_def)
qed

lemma ascending_idsD:
  assumes "ascending_ids s"
  shows "\<forall>(p, l)\<in>set (bids s). ascending l" and "\<forall>(p, l)\<in>set (asks s). ascending l"
proof -
  from assms have d: "\<And>c. \<forall>(p, l)\<in>set (side c s). ascending l"
    unfolding ascending_ids_def by blast
  from d [of True] show "\<forall>(p, l)\<in>set (bids s). ascending l" by (simp add: side_def)
  from d [of False] show "\<forall>(p, l)\<in>set (asks s). ascending l" by (simp add: side_def)
qed

lemma match_ascending:
  assumes a: "ascending_ids s" and m: "match inc b s = (inc', s')"
  shows "ascending_ids s'"
proof (cases b)
  case True
  with m have "match inc True s = (inc', s')" by simp
  then obtain book' idx' tr' where
    r: "match_book True inc (asks s) (order_index s) (trades s) = (inc', book', idx', tr')"
    and s': "s' = s\<lparr>asks := book', order_index := idx', trades := tr'\<rparr>"
    by (rule match_bid_cases)
  note D = ascending_idsD [OF a]
  from match_book_ascending [OF r D(2)] D(1) show ?thesis
    by (intro ascending_idsI) (simp_all add: s')
next
  case False
  with m have "match inc False s = (inc', s')" by simp
  then obtain book' idx' tr' where
    r: "match_book False inc (bids s) (order_index s) (trades s) = (inc', book', idx', tr')"
    and s': "s' = s\<lparr>bids := book', order_index := idx', trades := tr'\<rparr>"
    by (rule match_ask_cases)
  note D = ascending_idsD [OF a]
  from match_book_ascending [OF r D(1)] D(2) show ?thesis
    by (intro ascending_idsI) (simp_all add: s')
qed

lemma ascending_snoc:
  assumes "ascending l" and "\<And>y. y \<in> set l \<Longrightarrow> unat (id_o y) < unat (id_o x)"
  shows "ascending (l @ [x])"
  using assms unfolding ascending_def by (auto simp: sorted_wrt_append)

lemma rest_order_ascending:
  assumes a: "ascending_ids s"
    and younger: "\<And>c j k. rests (side c s) j k \<Longrightarrow> unat j < unat (id_o x)"
  shows "ascending_ids (rest_order b x s)"
  unfolding ascending_ids_def
proof
  fix c
  from a have d: "\<And>c. \<forall>(p, lvl)\<in>set (side c s). ascending lvl"
    unfolding ascending_ids_def by blast
  show "\<forall>(p, lvl)\<in>set (side c (rest_order b x s)). ascending lvl"
  proof (cases "c = b")
    case False
    then have "side c (rest_order b x s) = side c s"
      by (cases b; cases c) (simp_all add: side_def rest_order_def)
    with d [of c] show ?thesis by simp
  next
    case True
    have own: "side b (rest_order b x s) =
        push_back_at (if b then (>) else (<)) (price_o x) x (side b s)"
      by (cases b) (simp_all add: side_def rest_order_def)
    have tri: "\<not> (if b then (>) else (<)) u v \<Longrightarrow> \<not> (if b then (>) else (<)) v u \<Longrightarrow> u = v"
      for u v :: real
      by (cases b) simp_all
    have "ascending l" if "(p, l) \<in> set (side b (rest_order b x s))" for p l
    proof -
      from push_back_at_members [OF tri that [unfolded own]]
      consider "(p, l) \<in> set (side b s)" | "l = [x]"
        | l0 where "(price_o x, l0) \<in> set (side b s)" "l = l0 @ [x]"
        by blast
      then show ?thesis
      proof cases
        case 1
        with d [of b] show ?thesis by blast
      next
        case 2
        then show ?thesis by (simp add: ascending_def)
      next
        case 3
        from 3(1) d [of b] have "ascending l0" by blast
        moreover have "unat (id_o y) < unat (id_o x)" if "y \<in> set l0" for y
        proof -
          from that 3(1) have "rests (side b s) (id_o y) (price_o x)" by (auto simp: rests_def)
          then show ?thesis by (rule younger)
        qed
        ultimately show ?thesis unfolding 3(2) by (rule ascending_snoc)
      qed
    qed
    with True show ?thesis by blast
  qed
qed

lemma ascending_remove:
  assumes "ascending l"
  shows "ascending (take j l @ drop (Suc j) l)"
proof -
  let ?u = "map unat (map id_o l)"
  from assms have s: "sorted_wrt (<) (take j ?u @ drop j ?u)" by (simp add: ascending_def)
  have sub: "set (drop (Suc j) ?u) \<subseteq> set (drop j ?u)" by (rule set_drop_subset_set_drop) simp
  from s have "sorted_wrt (<) (take j ?u)" "sorted_wrt (<) (drop j ?u)"
    "\<forall>x\<in>set (take j ?u). \<forall>y\<in>set (drop j ?u). x < y"
    unfolding sorted_wrt_append by simp_all
  moreover from assms have "sorted_wrt (<) (drop (Suc j) ?u)"
    unfolding ascending_def by (rule sorted_wrt_drop)
  ultimately have "sorted_wrt (<) (take j ?u @ drop (Suc j) ?u)"
    unfolding sorted_wrt_append using sub by blast
  then show ?thesis by (simp add: ascending_def take_map drop_map)
qed

lemma cancel_in_sub:
  assumes c: "cancel_in i p book = Some book'"
    and dk: "distinct (map fst book)"
    and mem: "(k, l) \<in> set book'"
  shows "\<exists>l0. (k, l0) \<in> set book \<and> (l = l0 \<or> (\<exists>j. l = take j l0 @ drop (Suc j) l0))"
proof -
  from c obtain lvl lvl' where
    m: "map_of book p = Some lvl" and e: "erase_id i lvl = Some lvl'"
    and b': "book' = (if lvl' = [] then erase_level p book else set_level p lvl' book)"
    by (auto simp: cancel_in_def split: option.splits)
  from scan_steps_position [OF e] obtain j where j: "lvl' = take j lvl @ drop (Suc j) lvl" by blast
  show ?thesis
  proof (cases "lvl' = []")
    case True
    with mem b' have "(k, l) \<in> set (erase_level p book)" by simp
    from erase_level_members [OF dk this] show ?thesis by blast
  next
    case False
    with mem b' have "(k, l) \<in> set (set_level p lvl' book)" by simp
    from set_level_members [OF dk this] consider "(k, l) \<in> set book" | "k = p" "l = lvl'"
      by blast
    then show ?thesis
    proof cases
      case 1
      then show ?thesis by blast
    next
      case 2
      with map_of_SomeD [OF m] j show ?thesis by blast
    qed
  qed
qed

lemma cancel_in_ascending:
  assumes c: "cancel_in i p book = Some book'"
    and dk: "distinct (map fst book)"
    and a: "\<forall>(k, l)\<in>set book. ascending l"
  shows "\<forall>(k, l)\<in>set book'. ascending l"
proof -
  have "ascending l" if "(k, l) \<in> set book'" for k l
  proof -
    from cancel_in_sub [OF c dk that] obtain l0 where
      l0: "(k, l0) \<in> set book" "l = l0 \<or> (\<exists>j. l = take j l0 @ drop (Suc j) l0)" by blast
    from l0(1) a have "ascending l0" by blast
    with l0(2) ascending_remove [OF this] show ?thesis by auto
  qed
  then show ?thesis by blast
qed

lemma cancel_ascending:
  assumes inv: "invar s" and a: "ascending_ids s"
  shows "ascending_ids (snd (cancel i s))"
proof (cases "order_index s i")
  case None
  with a show ?thesis by (simp add: cancel_def)
next
  case (Some v)
  obtain p c where v: "v = (p, c)" by (cases v)
  from Some v have ix: "order_index s i = Some (p, c)" by simp
  from cancel_in_finds [OF inv ix] obtain book' where
    ci: "cancel_in i p (side c s) = Some book'" by auto
  from a have d: "\<And>d. \<forall>(k, l)\<in>set (side d s). ascending l"
    unfolding ascending_ids_def by blast
  note dk = invar_side_distinct [OF inv, of c]
  note M = cancel_in_ascending [OF ci dk d [of c]]
  let ?s' = "snd (cancel i s)"
  have s': "side c ?s' = book'" "side (\<not> c) ?s' = side (\<not> c) s"
    using ix ci by (cases c; simp add: cancel_def side_def)+
  show ?thesis
    unfolding ascending_ids_def
  proof
    fix e
    show "\<forall>(k, l)\<in>set (side e ?s'). ascending l"
    proof (cases "e = c")
      case True
      with M show ?thesis by (simp add: s'(1))
    next
      case False
      then have "e = (\<not> c)" by simp
      with d [of e] show ?thesis by (simp add: s'(2))
    qed
  qed
qed

lemma ascending_ids_bump [simp]: "ascending_ids (bump s) = ascending_ids s"
  by (simp add: ascending_ids_def)

lemma ascending_ids_empty: "ascending_ids empty_book"
  by (simp add: ascending_ids_def empty_book_def side_def)

lemma step_ascending:
  assumes inv: "invar s" and below: "ids_below s" and a: "ascending_ids s"
  shows "ascending_ids (step c s)"
proof (cases c)
  case (Add_limit p q b)
  show ?thesis
  proof (cases "0 < q")
    case False
    with a show ?thesis by (simp add: Add_limit add_limit_def)
  next
    case True
    obtain inc' s1 where m: "match (incoming p q s) b (bump s) = (inc', s1)"
      by (cases "match (incoming p q s) b (bump s)")
    from a have "ascending_ids (bump s)" by simp
    then have a1: "ascending_ids s1" using m by (rule match_ascending)
    from match_same_order [OF m] have id: "id_o inc' = next_id s" by (simp add: incoming_def)
    have younger: "unat j < unat (id_o inc')" if "rests (side d s1) j k" for d j k
    proof -
      from m that have "rests (side d (bump s)) j k" by (rule match_rests)
      then have "rests (side d s) j k" by simp
      with below show ?thesis unfolding id ids_below_def by blast
    qed
    from a1 rest_order_ascending [OF a1 younger, where b = b] show ?thesis
      by (simp add: Add_limit add_limit_unfold [OF True m])
  qed
next
  case (Add_market q b)
  show ?thesis
  proof (cases "0 < q")
    case False
    with a show ?thesis by (simp add: Add_market add_market_def)
  next
    case True
    let ?inc = "incoming (market_price b) q s"
    obtain inc' s1 where m: "match ?inc b (bump s) = (inc', s1)"
      by (cases "match ?inc b (bump s)")
    from a have "ascending_ids (bump s)" by simp
    then have "ascending_ids s1" using m by (rule match_ascending)
    then show ?thesis by (simp add: Add_market add_market_is_match [OF True] m)
  qed
next
  case (Cancel i)
  from cancel_ascending [OF inv a] show ?thesis by (simp add: Cancel)
next
  case Clear
  show ?thesis by (simp add: Clear clear_def ascending_ids_def side_def)
qed

lemma run_ascending:
  "invar s \<Longrightarrow> ids_below s \<Longrightarrow> ascending_ids s \<Longrightarrow> unat (next_id s) + length cs < 2 ^ 64 \<Longrightarrow>
   ascending_ids (run cs s)"
proof (induction cs arbitrary: s)
  case Nil
  then show ?case by simp
next
  case (Cons c cs)
  from Cons.prems(4) have room: "unat (next_id s) + 1 < 2 ^ 64" by simp
  note S = step_ids_below [OF Cons.prems(1,2) room, of c]
  from S(2) Cons.prems(4) have "unat (next_id (step c s)) + length cs < 2 ^ 64" by simp
  from Cons.IH [OF step_invar [OF Cons.prems(1)] S(1) step_ascending [OF Cons.prems(1,2,3)] this]
  show ?case by simp
qed

lemma early_ascending:
  assumes "length cs < 2 ^ 64 - 1"
  shows "ascending_ids (run cs empty_book)"
proof -
  have "unat (next_id empty_book) = 1" by (simp add: empty_book_def)
  with assms run_ascending [OF invar_empty ids_below_empty ascending_ids_empty, of cs]
  show ?thesis by simp
qed


lemma accepted_step:
  "(accepted c s = [] \<and> next_id (step c s) = next_id s) \<or>
   (accepted c s = [next_id s] \<and> next_id (step c s) = next_id s + 1)"
proof (cases c)
  case (Add_limit p q b)
  show ?thesis
  proof (cases "0 < q")
    case False
    then show ?thesis by (simp add: Add_limit add_limit_def)
  next
    case True
    obtain inc' s1 where m: "match (incoming p q s) b (bump s) = (inc', s1)"
      by (cases "match (incoming p q s) b (bump s)")
    from add_limit_unfold [OF True m] add_limit_ids(1) [OF True, of p b s] True
    show ?thesis by (simp add: Add_limit)
  qed
next
  case (Add_market q b)
  show ?thesis
  proof (cases "0 < q")
    case False
    then show ?thesis by (simp add: Add_market add_market_def)
  next
    case True
    obtain inc' s1 where
      m: "match (incoming (if b then 1000000000 else 0) q s) b (bump s) = (inc', s1)"
      by (cases "match (incoming (if b then 1000000000 else 0) q s) b (bump s)")
    from add_market_unfold [OF True m] add_market_ids(1) [OF True, of b s] True
    show ?thesis by (simp add: Add_market)
  qed
next
  case (Cancel i)
  then show ?thesis by (auto simp: cancel_def split: option.splits prod.splits)
next
  case Clear
  then show ?thesis by (simp add: clear_def)
qed

lemma submissions_upt:
  "unat (next_id s) + length cs < 2 ^ 64 \<Longrightarrow>
   unat (next_id s) \<le> unat (next_id (run cs s)) \<and>
   unat (next_id (run cs s)) \<le> unat (next_id s) + length cs \<and>
   map unat (submissions cs s) = [unat (next_id s)..<unat (next_id (run cs s))]"
proof (induction cs arbitrary: s)
  case Nil
  then show ?case by simp
next
  case (Cons c cs)
  from Cons.prems have room: "unat (next_id s) + 1 < 2 ^ 64" by simp
  from accepted_step [of c s] consider
    (rejected) "accepted c s = []" "next_id (step c s) = next_id s"
    | (taken) "accepted c s = [next_id s]" "next_id (step c s) = next_id s + 1"
    by blast
  then show ?case
  proof cases
    case rejected
    from Cons.prems have "unat (next_id (step c s)) + length cs < 2 ^ 64"
      by (simp add: rejected(2))
    from Cons.IH [OF this] show ?thesis by (simp add: rejected)
  next
    case taken
    from unat_next [OF room] have n: "unat (next_id (step c s)) = unat (next_id s) + 1"
      by (simp add: taken(2))
    from Cons.prems have "unat (next_id (step c s)) + length cs < 2 ^ 64"
      by (simp add: n)
    from Cons.IH [OF this] have
      le: "unat (next_id s) + 1 \<le> unat (next_id (run cs (step c s)))"
      and ub: "unat (next_id (run cs (step c s))) \<le> unat (next_id s) + 1 + length cs"
      and eq: "map unat (submissions cs (step c s)) =
        [unat (next_id s) + 1..<unat (next_id (run cs (step c s)))]"
      by (simp_all add: n)
    from le have "[unat (next_id s)..<unat (next_id (run cs (step c s)))] =
      unat (next_id s) # [unat (next_id s) + 1..<unat (next_id (run cs (step c s)))]"
      by (simp add: upt_conv_Cons)
    with le ub eq show ?thesis by (simp add: taken(1))
  qed
qed

lemma inj_unat_id: "inj (unat :: order_id \<Rightarrow> nat)"
  by (rule injI) (simp add: word_unat_eq_iff)

lemma in_submission_orderI:
  assumes subs: "map unat subs = [1..<n]"
    and a: "ascending lvl"
    and known: "\<And>y. y \<in> set lvl \<Longrightarrow> 0 < unat (id_o y) \<and> unat (id_o y) < n"
  shows "in_submission_order subs lvl"
proof -
  let ?I = "id_o ` set lvl"
  have mem: "(unat i \<in> unat ` ?I) = (i \<in> ?I)" for i :: order_id
    by (rule inj_image_mem_iff) (rule inj_unat_id)
  have "map unat [i\<leftarrow>subs. i \<in> ?I] = [m\<leftarrow>map unat subs. m \<in> unat ` ?I]"
    by (simp add: filter_map o_def mem)
  also have "\<dots> = [m\<leftarrow>[1..<n]. m \<in> unat ` ?I]" by (simp only: subs)
  finally have r: "map unat [i\<leftarrow>subs. i \<in> ?I] = [m\<leftarrow>[1..<n]. m \<in> unat ` ?I]" .
  have "map unat (map id_o lvl) = [m\<leftarrow>[1..<n]. m \<in> unat ` ?I]"
  proof (rule sorted_distinct_set_unique)
    from a show "sorted (map unat (map id_o lvl))" "distinct (map unat (map id_o lvl))"
      unfolding ascending_def strict_sorted_iff by simp_all
    show "sorted [m\<leftarrow>[1..<n]. m \<in> unat ` ?I]" by (simp add: sorted_wrt_filter)
    show "distinct [m\<leftarrow>[1..<n]. m \<in> unat ` ?I]" by simp
    from known have "m \<in> set [1..<n]" if "m \<in> unat ` ?I" for m
      using that by force
    then show "set (map unat (map id_o lvl)) = set [m\<leftarrow>[1..<n]. m \<in> unat ` ?I]"
      by (auto simp: image_image)
  qed
  with r have "map unat (map id_o lvl) = map unat [i\<leftarrow>subs. i \<in> ?I]" by simp
  then have "map id_o lvl = [i\<leftarrow>subs. i \<in> ?I]"
    by (rule map_injective) (rule inj_unat_id)
  then show ?thesis by (simp add: in_submission_order_def)
qed

text \<open>While \<open>next_id\<close> has not wrapped around, no id is given twice and every queue lists
  its orders in the order in which they were submitted.\<close>

lemma early_submission_order:
  assumes calls: "length cs < 2 ^ 64 - 1"
  shows "distinct (submissions cs empty_book)"
    and "(p, lvl) \<in> set (side c (run cs empty_book)) \<Longrightarrow>
         in_submission_order (submissions cs empty_book) lvl"
proof -
  let ?s = "run cs empty_book"
  have one: "unat (next_id empty_book) = 1" by (simp add: empty_book_def)
  with calls have "unat (next_id empty_book) + length cs < 2 ^ 64" by simp
  from submissions_upt [OF this] have
    subs: "map unat (submissions cs empty_book) = [1..<unat (next_id ?s)]"
    by (simp add: one)
  have "distinct (map unat (submissions cs empty_book))" unfolding subs by simp
  then show "distinct (submissions cs empty_book)" by (simp add: distinct_map)
  assume mem: "(p, lvl) \<in> set (side c ?s)"
  from early_ascending [OF calls] mem have a: "ascending lvl"
    unfolding ascending_ids_def by blast
  from early_ids_below(1) [OF calls] have
    b: "\<And>i k d. rests (side d ?s) i k \<Longrightarrow> 0 < unat i \<and> unat i < unat (next_id ?s)"
    unfolding ids_below_def by blast
  have "0 < unat (id_o y) \<and> unat (id_o y) < unat (next_id ?s)" if "y \<in> set lvl" for y
  proof (rule b)
    from mem that show "rests (side c ?s) (id_o y) p" by (auto simp: rests_def)
  qed
  with subs a show "in_submission_order (submissions cs empty_book) lvl"
    by (rule in_submission_orderI)
qed


lemma queue_at_Nil [simp]: "queue_at [] k = []"
  by (simp add: queue_at_def)

lemma queue_at_level:
  "x \<in> set (queue_at book k) \<Longrightarrow> (k, queue_at book k) \<in> set book"
  by (cases "map_of book k") (auto simp: queue_at_def dest: map_of_SomeD)

lemma queue_at_set_level:
  "p \<in> fst ` set book \<Longrightarrow>
   queue_at (set_level p l book) k = (if k = p then l else queue_at book k)"
proof (induction book)
  case Nil
  then show ?case by simp
next
  case (Cons a book)
  obtain k0 lvl where a: "a = (k0, lvl)" by (cases a)
  show ?case
  proof (cases "k0 = p")
    case True
    then show ?thesis unfolding a by (simp add: queue_at_Cons)
  next
    case False
    with Cons.prems have "p \<in> fst ` set book" unfolding a by auto
    from Cons.IH [OF this] False show ?thesis
      unfolding a by (cases "k = p") (simp_all add: queue_at_Cons)
  qed
qed

lemma queue_at_erase_level:
  "distinct (map fst book) \<Longrightarrow>
   queue_at (erase_level p book) k = (if k = p then [] else queue_at book k)"
proof (induction book)
  case Nil
  then show ?case by simp
next
  case (Cons a book)
  obtain k0 lvl where a: "a = (k0, lvl)" by (cases a)
  show ?case
  proof (cases "k0 = p")
    case True
    with Cons.prems have "p \<notin> fst ` set book" unfolding a by simp
    then have "queue_at book p = []" by (rule queue_at_absent)
    with True show ?thesis unfolding a by (simp add: queue_at_Cons)
  next
    case False
    from Cons.prems have "distinct (map fst book)" by simp
    from Cons.IH [OF this] False show ?thesis
      unfolding a by (cases "k = p") (simp_all add: queue_at_Cons)
  qed
qed

lemma cancel_in_queue:
  assumes c: "cancel_in i p book = Some book'" and dk: "distinct (map fst book)"
  shows "\<exists>lvl'. erase_id i (queue_at book p) = Some lvl' \<and>
    (\<forall>k. queue_at book' k = (if k = p then lvl' else queue_at book k))"
proof -
  from c obtain lvl lvl' where
    m: "map_of book p = Some lvl" and e: "erase_id i lvl = Some lvl'"
    and b': "book' = (if lvl' = [] then erase_level p book else set_level p lvl' book)"
    by (auto simp: cancel_in_def split: option.splits)
  from m have q: "queue_at book p = lvl" by (simp add: queue_at_def)
  from map_of_SomeD [OF m] have key: "p \<in> fst ` set book" by force
  have "queue_at book' k = (if k = p then lvl' else queue_at book k)" for k
  proof (cases "lvl' = []")
    case True
    with b' queue_at_erase_level [OF dk, of p k] show ?thesis by simp
  next
    case False
    with b' queue_at_set_level [OF key, of lvl' k] show ?thesis by simp
  qed
  with e q show ?thesis by blast
qed

lemma erase_id_filter:
  "erase_id i lvl = Some lvl' \<Longrightarrow> distinct (map id_o lvl) \<Longrightarrow> lvl' = [x\<leftarrow>lvl. id_o x \<noteq> i]"
proof (induction lvl arbitrary: lvl')
  case Nil
  then show ?case by simp
next
  case (Cons x xs)
  show ?case
  proof (cases "id_o x = i")
    case True
    with Cons.prems have "lvl' = xs" "i \<notin> id_o ` set xs" by auto
    moreover from this(2) have "[y\<leftarrow>xs. id_o y \<noteq> i] = xs" by (auto simp: filter_id_conv)
    ultimately show ?thesis using True by simp
  next
    case False
    with Cons.prems obtain xs' where e: "erase_id i xs = Some xs'" and l: "lvl' = x # xs'"
      by (auto split: option.splits)
    from Cons.prems(2) have "distinct (map id_o xs)" by simp
    from Cons.IH [OF e this] False l show ?thesis by simp
  qed
qed

text \<open>While no id rests twice, \<open>cancel\<close> takes the order with the given id out of its queue
  and moves nothing else.\<close>

lemma cancel_queue:
  assumes inv: "invar s" and io: "indexed_once s"
  shows "queue_at (side c (snd (cancel i s))) k = [x\<leftarrow>queue_at (side c s) k. id_o x \<noteq> i]"
proof -
  from io have a: "\<And>d j p. rests (side d s) j p \<Longrightarrow> order_index s j = Some (p, d)"
    and d: "\<And>d. \<forall>(p, l)\<in>set (side d s). distinct (map id_o l)"
    unfolding indexed_once_def by blast+
  have absent: "[x\<leftarrow>queue_at (side e s) k. id_o x \<noteq> i] = queue_at (side e s) k"
    if "order_index s i \<noteq> Some (k, e)" for e
  proof -
    have "id_o x \<noteq> i" if x: "x \<in> set (queue_at (side e s) k)" for x
    proof
      assume "id_o x = i"
      with queue_at_level [OF x] x have "rests (side e s) i k" by (auto simp: rests_def)
      from a [OF this] \<open>order_index s i \<noteq> Some (k, e)\<close> show False by simp
    qed
    then show ?thesis by (simp add: filter_id_conv)
  qed
  show ?thesis
  proof (cases "order_index s i")
    case None
    then have "order_index s i \<noteq> Some (k, c)" by simp
    from absent [OF this] None show ?thesis by (simp add: cancel_def)
  next
    case (Some v)
    obtain p c0 where v: "v = (p, c0)" by (cases v)
    from Some v have ix: "order_index s i = Some (p, c0)" by simp
    from cancel_in_finds [OF inv ix] obtain book' where
      ci: "cancel_in i p (side c0 s) = Some book'" by auto
    note dk = invar_side_distinct [OF inv, of c0]
    from cancel_in_queue [OF ci dk] obtain lvl' where
      e: "erase_id i (queue_at (side c0 s) p) = Some lvl'"
      and q: "\<And>k. queue_at book' k = (if k = p then lvl' else queue_at (side c0 s) k)"
      by blast
    let ?s' = "snd (cancel i s)"
    have s': "side c0 ?s' = book'" "side (\<not> c0) ?s' = side (\<not> c0) s"
      using ix ci by (cases c0; simp add: cancel_def side_def)+
    show ?thesis
    proof (cases "c = c0")
      case False
      then have c: "c = (\<not> c0)" by simp
      from False ix have "order_index s i \<noteq> Some (k, c)" by simp
      from absent [OF this] show ?thesis by (simp add: c s'(2))
    next
      case True
      show ?thesis
      proof (cases "k = p")
        case False
        with ix have "order_index s i \<noteq> Some (k, c)" by simp
        from absent [OF this] False show ?thesis by (simp add: True s'(1) q)
      next
        case kp: True
        have "distinct (map id_o (queue_at (side c0 s) p))"
        proof (cases "queue_at (side c0 s) p")
          case Nil
          then show ?thesis by simp
        next
          case (Cons x xs)
          then have "x \<in> set (queue_at (side c0 s) p)" by simp
          from queue_at_level [OF this] d [of c0] show ?thesis by blast
        qed
        from erase_id_filter [OF e this] show ?thesis by (simp add: True kp s'(1) q)
      qed
    qed
  qed
qed

text \<open>A limit order that rests joins the tail of a queue of its own side, and \<open>add_limit\<close>
  does nothing else to that side.\<close>

lemma add_limit_tail:
  assumes inv: "invar s"
  shows "\<exists>rest. queue_at (side b (snd (add_limit p q b s))) k = queue_at (side b s) k @ rest"
proof (cases "0 < q")
  case False
  then show ?thesis by (simp add: add_limit_def)
next
  case True
  obtain inc' s1 where m: "match (incoming p q s) b (bump s) = (inc', s1)"
    by (cases "match (incoming p q s) b (bump s)")
  from inv have "invar (bump s)" by simp
  moreover from True have "0 \<le> qty_o (incoming p q s)" by (simp add: incoming_def)
  ultimately have inv1: "invar s1" using m by (rule match_invar)
  from match_own_side [OF m] have own: "side b s1 = side b s" by simp
  from rest_order_queue [OF inv1, of b inc' k] show ?thesis
    by (simp add: add_limit_unfold [OF True m] own)
qed


section \<open>Price-time priority\<close>

text \<open>
  Claim C3. In a run of fewer than \<open>2\<^sup>6\<^sup>4 - 1\<close> calls (\<open>next_id\<close> has not wrapped around)
  no id is given twice and every queue of the book holds its orders in the order in which
  they were submitted, oldest first: its ids are the accepted submissions of the run, in
  the order of the calls, restricted to the orders of the queue. \<open>cancel\<close> takes the order
  with the given id out of its queue and leaves every other order in its place. An
  order that \<open>add_limit\<close> rests joins its queue at the tail. The trades that an incoming
  limit or market order makes at the price of an opposing level are against the orders
  \<open>o1\<close>, \<open>o2\<close>, \<open>\<dots>\<close> of that queue from the front; each order but the last one traded
  against is filled for its entire quantity, so \<open>o1\<close> is consumed before any trade touches
  \<open>o2\<close>; the orders that survive are a suffix of the queue, in their old order and, but
  for the front one, untouched. A level that the incoming order does not reach is the
  case of no trade.
\<close>

theorem fifo_priority:
  assumes "s = run cs empty_book"
  shows "(length cs < 2 ^ 64 - 1 \<longrightarrow>
            distinct (submissions cs empty_book) \<and>
            (\<forall>c. \<forall>(p, lvl)\<in>set (side c s). in_submission_order (submissions cs empty_book) lvl) \<and>
            (\<forall>c p. queue_at (side c (snd (cancel i s))) p =
                     [x\<leftarrow>queue_at (side c s) p. id_o x \<noteq> i])) \<and>
         (\<forall>p. \<exists>rest. queue_at (side is_bid (snd (add_limit price q is_bid s))) p =
                      queue_at (side is_bid s) p @ rest) \<and>
         (\<exists>new. trades (snd (add_limit price q is_bid s)) = trades s @ new \<and>
            (\<forall>(p, lvl)\<in>set (side (\<not> is_bid) s).
               fifo_fill is_bid lvl (queue_at (side (\<not> is_bid) (snd (add_limit price q is_bid s))) p)
                 [t\<leftarrow>new. price_t t = p])) \<and>
         (\<exists>new. trades (snd (add_market q is_bid s)) = trades s @ new \<and>
            (\<forall>(p, lvl)\<in>set (side (\<not> is_bid) s).
               fifo_fill is_bid lvl (queue_at (side (\<not> is_bid) (snd (add_market q is_bid s))) p)
                 [t\<leftarrow>new. price_t t = p]))"
proof -
  have inv: "invar s" unfolding assms by (rule run_invar [OF invar_empty])
  have early: "distinct (submissions cs empty_book) \<and>
      (\<forall>c. \<forall>(p, lvl)\<in>set (side c s). in_submission_order (submissions cs empty_book) lvl) \<and>
      (\<forall>c p. queue_at (side c (snd (cancel i s))) p = [x\<leftarrow>queue_at (side c s) p. id_o x \<noteq> i])"
    if calls: "length cs < 2 ^ 64 - 1"
  proof (intro conjI allI)
    show "distinct (submissions cs empty_book)" by (rule early_submission_order(1) [OF calls])
  next
    fix c
    show "\<forall>(p, lvl)\<in>set (side c s). in_submission_order (submissions cs empty_book) lvl"
      unfolding assms using early_submission_order(2) [OF calls] by blast
  next
    fix c p
    from early_indexed_once [OF calls] have "indexed_once s" unfolding assms .
    with inv show "queue_at (side c (snd (cancel i s))) p = [x\<leftarrow>queue_at (side c s) p. id_o x \<noteq> i]"
      by (rule cancel_queue)
  qed
  have tail: "\<forall>p. \<exists>rest. queue_at (side is_bid (snd (add_limit price q is_bid s))) p =
      queue_at (side is_bid s) p @ rest"
    using add_limit_tail [OF inv] by blast
  have fill: "(\<exists>new. trades (snd (add_limit price q is_bid s)) = trades s @ new \<and>
            (\<forall>(p, lvl)\<in>set (side (\<not> is_bid) s).
               fifo_fill is_bid lvl (queue_at (side (\<not> is_bid) (snd (add_limit price q is_bid s))) p)
                 [t\<leftarrow>new. price_t t = p])) \<and>
         (\<exists>new. trades (snd (add_market q is_bid s)) = trades s @ new \<and>
            (\<forall>(p, lvl)\<in>set (side (\<not> is_bid) s).
               fifo_fill is_bid lvl (queue_at (side (\<not> is_bid) (snd (add_market q is_bid s))) p)
                 [t\<leftarrow>new. price_t t = p]))"
  proof (cases "0 < q")
    case False
    from inv have "distinct (map fst (side (\<not> is_bid) s))" by (rule invar_side_distinct)
    then have "\<forall>(p, lvl)\<in>set (side (\<not> is_bid) s).
        fifo_fill is_bid lvl (queue_at (side (\<not> is_bid) s) p) [t\<leftarrow>[]. price_t t = p]"
      by (auto simp: queue_at_member)
    with False show ?thesis by (simp add: add_limit_def add_market_def)
  next
    case True
    from inv have invb: "invar (bump s)" by simp
    obtain inc1 s1 where m1: "match (incoming price q s) is_bid (bump s) = (inc1, s1)"
      by (cases "match (incoming price q s) is_bid (bump s)")
    let ?mkt = "incoming (if is_bid then 1000000000 else 0) q s"
    obtain inc2 s2 where m2: "match ?mkt is_bid (bump s) = (inc2, s2)"
      by (cases "match ?mkt is_bid (bump s)")
    have l: "trades (snd (add_limit price q is_bid s)) = trades s1"
      "side (\<not> is_bid) (snd (add_limit price q is_bid s)) = side (\<not> is_bid) s1"
      by (simp_all add: add_limit_unfold [OF True m1])
    have k: "trades (snd (add_market q is_bid s)) = trades s2"
      "side (\<not> is_bid) (snd (add_market q is_bid s)) = side (\<not> is_bid) s2"
      by (simp_all add: add_market_unfold [OF True m2])
    from match_fifo [OF invb m1] match_fifo [OF invb m2] show ?thesis
      unfolding l k by simp
  qed
  from early tail fill show ?thesis by blast
qed

theorem fifo_priority_witness:
  "length queue_with_gap < 2 ^ 64 - 1 \<and>
   submissions queue_with_gap empty_book = [1, 2, 3, 4] \<and>
   asks (run queue_with_gap empty_book) =
     [(100, [\<lparr>id_o = 1, price_o = 100, qty_o = 50\<rparr>, \<lparr>id_o = 3, price_o = 100, qty_o = 50\<rparr>,
             \<lparr>id_o = 4, price_o = 100, qty_o = 50\<rparr>])] \<and>
   in_submission_order [1, 2, 3, 4]
     [\<lparr>id_o = 1, price_o = 100, qty_o = 50\<rparr>, \<lparr>id_o = 3, price_o = 100, qty_o = 50\<rparr>,
      \<lparr>id_o = 4, price_o = 100, qty_o = 50\<rparr>] \<and>
   queue_at (asks (snd (cancel 3 (run queue_with_gap empty_book)))) 100 =
     [\<lparr>id_o = 1, price_o = 100, qty_o = 50\<rparr>, \<lparr>id_o = 4, price_o = 100, qty_o = 50\<rparr>] \<and>
   queue_at (asks (snd (add_limit 100 20 False (run queue_with_gap empty_book)))) 100 =
     [\<lparr>id_o = 1, price_o = 100, qty_o = 50\<rparr>, \<lparr>id_o = 3, price_o = 100, qty_o = 50\<rparr>,
      \<lparr>id_o = 4, price_o = 100, qty_o = 50\<rparr>, \<lparr>id_o = 5, price_o = 100, qty_o = 20\<rparr>] \<and>
   trades (snd (add_limit 100 70 True (run queue_with_gap empty_book))) =
     [\<lparr>buyer_id = 5, seller_id = 1, price_t = 100, qty_t = 50\<rparr>,
      \<lparr>buyer_id = 5, seller_id = 3, price_t = 100, qty_t = 20\<rparr>] \<and>
   fifo_fill True
     [\<lparr>id_o = 1, price_o = 100, qty_o = 50\<rparr>, \<lparr>id_o = 3, price_o = 100, qty_o = 50\<rparr>,
      \<lparr>id_o = 4, price_o = 100, qty_o = 50\<rparr>]
     [\<lparr>id_o = 3, price_o = 100, qty_o = 30\<rparr>, \<lparr>id_o = 4, price_o = 100, qty_o = 50\<rparr>]
     [\<lparr>buyer_id = 5, seller_id = 1, price_t = 100, qty_t = 50\<rparr>,
      \<lparr>buyer_id = 5, seller_id = 3, price_t = 100, qty_t = 20\<rparr>]"
proof -
  let ?s = "run queue_with_gap empty_book"
  have calls: "length queue_with_gap < 2 ^ 64 - 1" by (simp add: queue_with_gap_def)
  have e: "submissions queue_with_gap empty_book = [1, 2, 3, 4]"
    "asks ?s =
     [(100, [\<lparr>id_o = 1, price_o = 100, qty_o = 50\<rparr>, \<lparr>id_o = 3, price_o = 100, qty_o = 50\<rparr>,
             \<lparr>id_o = 4, price_o = 100, qty_o = 50\<rparr>])]"
    "trades ?s = []"
    "trades (snd (add_limit 100 70 True ?s)) =
     [\<lparr>buyer_id = 5, seller_id = 1, price_t = 100, qty_t = 50\<rparr>,
      \<lparr>buyer_id = 5, seller_id = 3, price_t = 100, qty_t = 20\<rparr>]"
    "asks (snd (add_limit 100 70 True ?s)) =
     [(100, [\<lparr>id_o = 3, price_o = 100, qty_o = 30\<rparr>, \<lparr>id_o = 4, price_o = 100, qty_o = 50\<rparr>])]"
    "queue_at (asks (snd (add_limit 100 20 False ?s))) 100 =
     [\<lparr>id_o = 1, price_o = 100, qty_o = 50\<rparr>, \<lparr>id_o = 3, price_o = 100, qty_o = 50\<rparr>,
      \<lparr>id_o = 4, price_o = 100, qty_o = 50\<rparr>, \<lparr>id_o = 5, price_o = 100, qty_o = 20\<rparr>]"
    by (simp_all add: queue_with_gap_def queue_at_def book_eval)
  note T = fifo_priority [of ?s queue_with_gap, OF refl,
      where i = 3 and is_bid = True and price = 100 and q = 70]
  from T calls have
    A: "\<forall>c. \<forall>(p, lvl)\<in>set (side c ?s).
          in_submission_order (submissions queue_with_gap empty_book) lvl"
    and B: "\<forall>c p. queue_at (side c (snd (cancel 3 ?s))) p = [x\<leftarrow>queue_at (side c ?s) p. id_o x \<noteq> 3]"
    and F: "\<exists>new. trades (snd (add_limit 100 70 True ?s)) = trades ?s @ new \<and>
            (\<forall>(p, lvl)\<in>set (side (\<not> True) ?s).
               fifo_fill True lvl (queue_at (side (\<not> True) (snd (add_limit 100 70 True ?s))) p)
                 [t\<leftarrow>new. price_t t = p])"
    by blast+
  from A have "\<forall>(p, lvl)\<in>set (side False ?s).
      in_submission_order (submissions queue_with_gap empty_book) lvl" by (rule spec)
  then have a: "in_submission_order [1, 2, 3, 4]
     [\<lparr>id_o = 1, price_o = 100, qty_o = 50\<rparr>, \<lparr>id_o = 3, price_o = 100, qty_o = 50\<rparr>,
      \<lparr>id_o = 4, price_o = 100, qty_o = 50\<rparr>]"
    by (simp add: e side_def)
  from B have "queue_at (side False (snd (cancel 3 ?s))) 100 =
      [x\<leftarrow>queue_at (side False ?s) 100. id_o x \<noteq> 3]" by blast
  then have b: "queue_at (asks (snd (cancel 3 ?s))) 100 =
     [\<lparr>id_o = 1, price_o = 100, qty_o = 50\<rparr>, \<lparr>id_o = 4, price_o = 100, qty_o = 50\<rparr>]"
    by (simp add: e side_def queue_at_def)
  from F have f: "fifo_fill True
     [\<lparr>id_o = 1, price_o = 100, qty_o = 50\<rparr>, \<lparr>id_o = 3, price_o = 100, qty_o = 50\<rparr>,
      \<lparr>id_o = 4, price_o = 100, qty_o = 50\<rparr>]
     [\<lparr>id_o = 3, price_o = 100, qty_o = 30\<rparr>, \<lparr>id_o = 4, price_o = 100, qty_o = 50\<rparr>]
     [\<lparr>buyer_id = 5, seller_id = 1, price_t = 100, qty_t = 50\<rparr>,
      \<lparr>buyer_id = 5, seller_id = 3, price_t = 100, qty_t = 20\<rparr>]"
    by (simp add: e side_def queue_at_def)
  from calls e a b f show ?thesis by simp
qed

end
